theory Spec2Isabelle
  imports Main
begin

section \<open>Values, errors and promises\<close>

text \<open>
  Store values are JavaScript values; only their shape matters to the engine. A rejection
  reason is an \<open>Error\<close> carrying its message. A promise is pending, fulfilled with a value
  or rejected with a reason, and it settles at most once.
\<close>

datatype val = Undefined | Str string | Arr "val list"

datatype err = Error string

datatype pstate = Pending | Fulfilled val | Rejected err

section \<open>Stores and the capability classifier\<close>

text \<open>
  \<open>Stores\<close> is either one store or an array of stores; \<open>getStoresArray\<close> wraps the single
  store, and \<open>Array.isArray(stores)\<close> tells the two shapes apart.
\<close>

datatype 'a stores = Single 'a | Many "'a list"

fun getStoresArray :: "'a stores \<Rightarrow> 'a list" where
  "getStoresArray (Many xs) = xs"
| "getStoresArray (Single x) = [x]"

fun isArray :: "'a stores \<Rightarrow> bool" where
  "isArray (Many xs) = True"
| "isArray (Single x) = False"

text \<open>
  The functions a store object can carry as own properties. The parent load function handed
  to a cycle is \<open>loadAll\<close> or \<open>reloadAll\<close>.
  \<^item> \<open>Cycle f force\<close> is the closure \<open>() => loadDependenciesThenSet(f, force)\<close>;
  \<^item> \<open>Delegate f\<close> is \<open>loadDependencies(thisStore, f, stores)\<close>;
  \<^item> \<open>Write\<close> is \<open>setStoreValueThenWrite\<close>;
  \<^item> \<open>Foreign k\<close> is a function supplied by the caller (the hand-made Loadables of the
    tests), \<open>k\<close> naming it.
\<close>

datatype loader = LoadAll | ReloadAll

datatype operation = Cycle loader bool | Delegate loader | Write | Foreign nat

text \<open>
  A store object: \<open>load\<close>, \<open>reload\<close> and \<open>setter\<close> are the optional own properties
  \<open>load\<close>, \<open>reload\<close> and \<open>set\<close> (\<open>None\<close> when the object has no such property);
  \<open>current\<close> is the value that \<open>get(store)\<close> reads at this moment.
\<close>

record store =
  load :: "operation option"
  reload :: "operation option"
  setter :: "operation option"
  current :: val

definition get :: "store \<Rightarrow> val" where
  "get s = current s"

definition isLoadable :: "store \<Rightarrow> bool" where
  "isLoadable s = (load s \<noteq> None)"

definition isReloadable :: "store \<Rightarrow> bool" where
  "isReloadable s = (reload s \<noteq> None)"

definition anyLoadable :: "store stores \<Rightarrow> bool" where
  "anyLoadable ss = list_ex isLoadable (getStoresArray ss)"

definition anyReloadable :: "store stores \<Rightarrow> bool" where
  "anyReloadable ss = list_ex isReloadable (getStoresArray ss)"

section \<open>The aggregate dispatcher\<close>

text \<open>
  \<open>loadAll\<close> and \<open>reloadAll\<close> map every store to either the promise returned by the
  operation they invoke on it (\<open>Promised m\<close>) or the value read with \<open>get\<close>
  (\<open>Direct v\<close>), and hand the list to \<open>Promise.all\<close>.

  \<open>Promise.all\<close> keeps one slot per element. A plain value fills its slot at once. Each
  promise reports its settlement later, in whatever order the promises settle: a
  fulfilment fills the slot, the first rejection rejects the aggregate, and nothing that
  arrives after changes a rejected aggregate. \<open>element_settled i r\<close> is the report of
  element \<open>i\<close>; a second report for the same element is ignored, since a promise settles
  once.
\<close>

datatype element = Promised operation | Direct val

record aggregate =
  elements :: "element list"
  slots :: "val option list"
  rejection :: "err option"

definition Promise_all :: "element list \<Rightarrow> aggregate" where
  "Promise_all es =
     \<lparr>elements = es,
      slots = map (\<lambda>e. case e of Direct v \<Rightarrow> Some v | Promised m \<Rightarrow> None) es,
      rejection = None\<rparr>"

definition element_settled :: "nat \<times> (err + val) \<Rightarrow> aggregate \<Rightarrow> aggregate" where
  "element_settled ev a =
     (case ev of (i, r) \<Rightarrow>
        if i < length (slots a) \<and> slots a ! i = None \<and> rejection a = None
        then (case r of
                Inr v \<Rightarrow> a\<lparr>slots := (slots a)[i := Some v]\<rparr>
              | Inl e \<Rightarrow> a\<lparr>rejection := Some e\<rparr>)
        else a)"

definition aggregate_state :: "aggregate \<Rightarrow> pstate" where
  "aggregate_state a =
     (case rejection a of
        Some e \<Rightarrow> Rejected e
      | None \<Rightarrow> if list_all (\<lambda>x. x \<noteq> None) (slots a)
                then Fulfilled (Arr (map the (slots a))) else Pending)"

text \<open>What an \<open>await\<close> of the aggregate finds once the given settlements have been reported.\<close>

abbreviation awaited :: "(nat \<times> (err + val)) list \<Rightarrow> aggregate \<Rightarrow> pstate" where
  "awaited reports a \<equiv> aggregate_state (fold element_settled reports a)"

definition loadAll :: "store stores \<Rightarrow> aggregate" where
  "loadAll ss =
     Promise_all (map (\<lambda>s. case load s of
                             Some m \<Rightarrow> Promised m
                           | None \<Rightarrow> Direct (get s)) (getStoresArray ss))"

definition reloadAll :: "store stores \<Rightarrow> aggregate" where
  "reloadAll ss =
     Promise_all (map (\<lambda>s. case reload s of
                             Some m \<Rightarrow> Promised m
                           | None \<Rightarrow> (case load s of
                                        Some m \<Rightarrow> Promised m
                                      | None \<Rightarrow> Direct (get s))) (getStoresArray ss))"

section \<open>The async derivation engine\<close>

text \<open>
  The private state of one async store, that is the variables closed over by
  \<open>asyncWritable\<close> (and by the stand-alone \<open>asyncDerived\<close>, which has the same ones):
  \<^item> \<open>cell\<close>: the value of \<open>thisStore\<close>;
  \<^item> \<open>loadedValuesString\<close> and \<open>currentLoadPromise\<close>: both start out undefined (\<open>None\<close>);
  \<^item> \<open>heap\<close>: the promises this store has created or kept, a promise being named by its
    position;
  \<^item> \<open>calls\<close>: the argument of every invocation of \<open>mappingLoadFunction\<close>, oldest first;
  \<^item> \<open>sets\<close>: every value passed to \<open>thisStore.set\<close>, oldest first;
  \<^item> \<open>writes\<close>: the arguments of every invocation of \<open>mappingWriteFunction\<close>.
\<close>

type_synonym pid = nat

type_synonym report = "nat \<times> (err + val)"

record async_store =
  cell :: val
  loadedValuesString :: "string option"
  currentLoadPromise :: "pid option"
  heap :: "pstate list"
  calls :: "val list"
  sets :: "val list"
  writes :: "(val \<times> val) list"

definition init_store :: "val \<Rightarrow> async_store" where
  "init_store initial =
     \<lparr>cell = initial, loadedValuesString = None, currentLoadPromise = None,
      heap = [], calls = [], sets = [], writes = []\<rparr>"

definition thisStore_set :: "val \<Rightarrow> async_store \<Rightarrow> async_store" where
  "thisStore_set v s = s\<lparr>cell := v, sets := sets s @ [v]\<rparr>"

text \<open>The parent load function a cycle is given, applied to the dependencies.\<close>

fun parentLoadFunction :: "loader \<Rightarrow> store stores \<Rightarrow> aggregate" where
  "parentLoadFunction LoadAll stores = loadAll stores"
| "parentLoadFunction ReloadAll stores = reloadAll stores"

text \<open>
  What the caller's mapping function does when it is invoked: it hands back a promise, or
  it throws. A plain value handed back is a promise fulfilled at once in \<open>asyncWritable\<close>
  (which wraps the result in \<open>Promise.resolve\<close>), and a \<open>TypeError\<close> thrown at \<open>.then\<close> in
  the stand-alone \<open>asyncDerived\<close> (which does not).
\<close>

datatype mapres = Returns_promise | Throws err

text \<open>
  What an \<open>async\<close> function has returned: it is still waiting at an \<open>await\<close>, it returned
  a promise of the heap (its own promise then follows that one), it returned \<open>undefined\<close>,
  or it threw.
\<close>

datatype ret = Ret_waiting | Ret_promise pid | Ret_undefined | Ret_throw err

text \<open>
  \<open>loadDependenciesThenSet(parentLoadFunction, forceReload)\<close>. Its first statement calls
  \<open>parentLoadFunction(stores)\<close> on the dependencies as they are when the cycle is
  triggered; \<open>reports\<close> are the settlements their promises have reported by the time the
  function is looked at again, and the body after \<open>await loadParentStores\<close> runs once the
  aggregate has settled. \<open>stores_now\<close> are the same dependencies as they are at that
  moment: \<open>get\<close> reads them then, not when the cycle was triggered. When the aggregate
  rejected, the aggregate itself becomes \<open>currentLoadPromise\<close>: it enters the heap as a
  rejected promise.
\<close>

definition loadDependenciesThenSet ::
  "(val list \<Rightarrow> string) \<Rightarrow> loader \<Rightarrow> store stores \<Rightarrow> report list \<Rightarrow> store stores \<Rightarrow> bool
     \<Rightarrow> mapres \<Rightarrow> async_store \<Rightarrow> ret \<times> async_store" where
  "loadDependenciesThenSet stringify f stores reports stores_now forceReload mres s =
     (let loadParentStores = fold element_settled reports (parentLoadFunction f stores) in
      case aggregate_state loadParentStores of
        Pending \<Rightarrow> (Ret_waiting, s)
      | Rejected e \<Rightarrow>
          (Ret_promise (length (heap s)),
           s\<lparr>heap := heap s @ [Rejected e], currentLoadPromise := Some (length (heap s))\<rparr>)
      | Fulfilled parentValues \<Rightarrow>
          (let storeValues = map get (getStoresArray stores_now);
               newValuesString = stringify storeValues
           in if \<not> forceReload \<and> Some newValuesString = loadedValuesString s
              then (case currentLoadPromise s of
                      Some p \<Rightarrow> (Ret_promise p, s)
                    | None \<Rightarrow> (Ret_undefined, s))
              else
                (let s1 = (if forceReload then s
                           else s\<lparr>loadedValuesString := Some newValuesString\<rparr>);
                     arg = (if isArray stores then Arr storeValues
                            else (case storeValues of [] \<Rightarrow> Undefined | v # vs \<Rightarrow> v));
                     s2 = s1\<lparr>calls := calls s1 @ [arg]\<rparr>
                 in case mres of
                      Throws e \<Rightarrow> (Ret_throw e, s2)
                    | Returns_promise \<Rightarrow>
                        (Ret_promise (length (heap s2)),
                         s2\<lparr>heap := heap s2 @ [Pending],
                            currentLoadPromise := Some (length (heap s2))\<rparr>))))"

text \<open>
  The callback chained on the mapping function's promise with \<open>.then\<close>: on fulfilment it
  calls \<open>thisStore.set(finalValue)\<close> and fulfils the chained promise with the same value; a
  rejection passes through to the chained promise and the callback does not run. Nothing
  in it looks at \<open>currentLoadPromise\<close>. A promise that is no longer pending stays as it is.
\<close>

definition mapping_settled :: "pid \<Rightarrow> err + val \<Rightarrow> async_store \<Rightarrow> async_store" where
  "mapping_settled p r s =
     (if p < length (heap s) \<and> heap s ! p = Pending
      then (case r of
              Inr finalValue \<Rightarrow>
                thisStore_set finalValue (s\<lparr>heap := (heap s)[p := Fulfilled finalValue]\<rparr>)
            | Inl e \<Rightarrow> s\<lparr>heap := (heap s)[p := Rejected e]\<rparr>)
      else s)"

text \<open>The state of the promise an \<open>async\<close> function returned, as its caller sees it.\<close>

definition ret_state :: "ret \<Rightarrow> async_store \<Rightarrow> pstate" where
  "ret_state r s =
     (case r of
        Ret_waiting \<Rightarrow> Pending
      | Ret_undefined \<Rightarrow> Fulfilled Undefined
      | Ret_throw e \<Rightarrow> Rejected e
      | Ret_promise p \<Rightarrow> (if p < length (heap s) then heap s ! p else Pending))"

subsection \<open>Runs of one store\<close>

text \<open>
  Everything that can happen to the variables of one store, in the order in which the
  single-threaded runtime runs it:
  \<^item> \<open>Resume f stores reports stores_now force mres\<close>: a cycle passes its \<open>await\<close>. Every
    trigger (first subscription, a dependency's notification, \<open>load()\<close>, \<open>reload()\<close>, the
    reload at the end of \<open>set\<close>) starts such a cycle;
  \<^item> \<open>Settled p r\<close>: the mapping function's promise behind \<open>p\<close> settles;
  \<^item> \<open>Set_cell v\<close>: \<open>setStoreValueThenWrite\<close> calls \<open>thisStore.set(v)\<close>.
\<close>

datatype event =
    Resume loader "store stores" "report list" "store stores" bool mapres
  | Settled pid "err + val"
  | Set_cell val

fun step :: "(val list \<Rightarrow> string) \<Rightarrow> async_store \<Rightarrow> event \<Rightarrow> async_store" where
  "step stringify s (Resume f stores reports stores_now force mres) =
     snd (loadDependenciesThenSet stringify f stores reports stores_now force mres s)"
| "step stringify s (Settled p r) = mapping_settled p r s"
| "step stringify s (Set_cell v) = thisStore_set v s"

definition run :: "(val list \<Rightarrow> string) \<Rightarrow> async_store \<Rightarrow> event list \<Rightarrow> async_store" where
  "run stringify s es = foldl (step stringify) s es"

text \<open>
  Kinds of events: a cycle that is not forced and, if its dependencies load so that it
  reads them, reads values whose serialisation is \<open>k\<close> (any event that is not a cycle
  counts as such); a cycle whose dependencies rejected; an event that passes a value to
  \<open>thisStore.set\<close>; a settlement.
\<close>

fun unforced_with_key :: "(val list \<Rightarrow> string) \<Rightarrow> string \<Rightarrow> event \<Rightarrow> bool" where
  "unforced_with_key stringify k (Resume f stores reports stores_now force mres) =
     (\<not> force \<and>
      (case awaited reports (parentLoadFunction f stores) of
         Fulfilled parentValues \<Rightarrow> stringify (map get (getStoresArray stores_now)) = k
       | _ \<Rightarrow> True))"
| "unforced_with_key stringify k (Settled p r) = True"
| "unforced_with_key stringify k (Set_cell v) = True"

fun dependencies_rejected :: "event \<Rightarrow> bool" where
  "dependencies_rejected (Resume f stores reports stores_now force mres) =
     (case awaited reports (parentLoadFunction f stores) of
        Rejected e \<Rightarrow> True
      | _ \<Rightarrow> False)"
| "dependencies_rejected (Settled p r) = False"
| "dependencies_rejected (Set_cell v) = False"

fun publishing :: "event \<Rightarrow> bool" where
  "publishing (Resume f stores reports stores_now force mres) = False"
| "publishing (Settled p (Inr v)) = True"
| "publishing (Settled p (Inl e)) = False"
| "publishing (Set_cell v) = True"

fun settlement :: "event \<Rightarrow> bool" where
  "settlement (Settled p r) = True"
| "settlement (Resume f stores reports stores_now force mres) = False"
| "settlement (Set_cell v) = False"




subsection \<open>The write path\<close>

text \<open>
  \<open>setStoreValueThenWrite(value)\<close>, with what each of its \<open>await\<close>s finds:
  \<^item> \<open>load_reports\<close>: the settlements reported to the aggregate of \<open>loadAll(stores)\<close>;
  \<^item> \<open>written\<close>: the state of the promise of \<open>mappingWriteFunction(value, parentValues)\<close>
    (a write function that throws counts as a rejected promise: the \<open>await\<close> sees the
    same);
  \<^item> for the closing reload of a reloadable store, the reports to \<open>reloadAll(stores)\<close>, the
    dependencies at its \<open>await\<close>, what the mapping function does, and how its promise
    settles (\<open>None\<close>: not yet).
\<close>

datatype set_ret = Set_waiting | Set_resolved | Set_rejected err

record write_env =
  load_reports :: "report list"
  written :: pstate
  reload_reports :: "report list"
  reload_stores_now :: "store stores"
  reload_mres :: mapres
  reload_settles :: "(err + val) option"

definition setStoreValueThenWrite ::
  "(val list \<Rightarrow> string) \<Rightarrow> store stores \<Rightarrow> bool \<Rightarrow> val \<Rightarrow> write_env \<Rightarrow> async_store
     \<Rightarrow> set_ret \<times> async_store" where
  "setStoreValueThenWrite stringify stores reloadable v env s =
     (let s1 = thisStore_set v s in
      case awaited (load_reports env) (loadAll stores) of
        Pending \<Rightarrow> (Set_waiting, s1)
      | Rejected e \<Rightarrow> (Set_rejected e, s1)
      | Fulfilled parentValues \<Rightarrow>
          (let s2 = s1\<lparr>writes := writes s1 @ [(v, parentValues)]\<rparr> in
           case written env of
             Pending \<Rightarrow> (Set_waiting, s2)
           | Rejected e \<Rightarrow> (Set_rejected e, s2)
           | Fulfilled writeResponse \<Rightarrow>
               (let s3 = (if writeResponse \<noteq> Undefined then thisStore_set writeResponse s2
                          else s2)
                in if reloadable
                   then (case loadDependenciesThenSet stringify ReloadAll stores
                                 (reload_reports env) (reload_stores_now env) reloadable
                                 (reload_mres env) s3 of
                           (r, s4) \<Rightarrow>
                             (let s5 = (case (r, reload_settles env) of
                                          (Ret_promise p, Some out) \<Rightarrow> mapping_settled p out s4
                                        | _ \<Rightarrow> s4)
                              in (case ret_state r s5 of
                                    Pending \<Rightarrow> Set_waiting
                                  | Fulfilled x \<Rightarrow> Set_resolved
                                  | Rejected e \<Rightarrow> Set_rejected e, s5)))
                   else (Set_resolved, s3))))"

section \<open>The store constructors\<close>

text \<open>
  Each constructor returns a store object; the mapping functions stay inside the closures
  and are not properties of the object. An undefined \<open>reloadable\<close> flag is falsy and
  selects the default \<open>forceReload = false\<close>, so the flag is a \<open>bool\<close>.
\<close>

definition asyncWritable :: "store stores \<Rightarrow> bool \<Rightarrow> val \<Rightarrow> store" where
  "asyncWritable stores reloadable initial =
     (let hasReloadFunction = (reloadable \<or> anyReloadable stores) in
      \<lparr>load = Some (Cycle LoadAll False),
       reload = (if hasReloadFunction then Some (Cycle ReloadAll reloadable) else None),
       setter = Some Write,
       current = initial\<rparr>)"

definition asyncDerived :: "store stores \<Rightarrow> bool \<Rightarrow> val \<Rightarrow> store" where
  "asyncDerived stores reloadable initial =
     (let thisStore = asyncWritable stores reloadable initial in
      \<lparr>load = load thisStore,
       reload = (case reload thisStore of Some r \<Rightarrow> Some r | None \<Rightarrow> None),
       setter = None,
       current = current thisStore\<rparr>)"

definition asyncReadable :: "val \<Rightarrow> bool \<Rightarrow> store" where
  "asyncReadable initial reloadable = asyncDerived (Many []) reloadable initial"

text \<open>
  The second copy of the module has no \<open>asyncWritable\<close>; its \<open>asyncDerived\<close> holds the
  cycle itself and returns \<open>subscribe\<close>, \<open>load\<close> and \<open>reload\<close> whatever the flag and the
  dependencies are.
\<close>

definition asyncDerived_standalone :: "store stores \<Rightarrow> bool \<Rightarrow> val \<Rightarrow> store" where
  "asyncDerived_standalone stores reloadable initial =
     \<lparr>load = Some (Cycle LoadAll False),
      reload = Some (Cycle ReloadAll reloadable),
      setter = None,
      current = initial\<rparr>"

definition asyncReadable_standalone :: "val \<Rightarrow> bool \<Rightarrow> store" where
  "asyncReadable_standalone initial reloadable =
     asyncDerived_standalone (Many []) reloadable initial"

text \<open>
  \<open>derived\<close> wraps the plain derived store of the store library, which holds the mapping
  function applied to the dependencies' values (the single value when \<open>stores\<close> is one
  store, the array otherwise) and applies it again at every change of a dependency.
  \<open>computed\<close> lists the arguments of the invocations of the mapping function so far. The
  plain store is taken with a subscriber, as in the tests, so that \<open>get\<close> reads the value it
  holds (without one the store library computes the value at each \<open>get\<close>).
\<close>

record plain_store =
  held :: val
  computed :: "val list"

definition storesValues :: "store stores \<Rightarrow> val" where
  "storesValues stores = (case stores of Single s \<Rightarrow> get s | Many xs \<Rightarrow> Arr (map get xs))"

definition vanillaDerived :: "store stores \<Rightarrow> (val \<Rightarrow> val) \<Rightarrow> plain_store" where
  "vanillaDerived stores mappingFunction =
     \<lparr>held = mappingFunction (storesValues stores), computed = [storesValues stores]\<rparr>"

definition dependency_changed :: "store stores \<Rightarrow> (val \<Rightarrow> val) \<Rightarrow> plain_store \<Rightarrow> plain_store" where
  "dependency_changed stores_now mappingFunction thisStore =
     \<lparr>held = mappingFunction (storesValues stores_now),
      computed = computed thisStore @ [storesValues stores_now]\<rparr>"

definition derived :: "store stores \<Rightarrow> (val \<Rightarrow> val) \<Rightarrow> store" where
  "derived stores mappingFunction =
     (let thisStore = vanillaDerived stores mappingFunction in
      \<lparr>load = (if anyLoadable stores then Some (Delegate LoadAll) else None),
       reload = (if anyReloadable stores then Some (Delegate ReloadAll) else None),
       setter = None,
       current = held thisStore\<rparr>)"

text \<open>
  \<open>loadDependencies(thisStore, loadFunction, stores)\<close> awaits \<open>loadFunction(stores)\<close> and
  returns \<open>get(thisStore)\<close>, the value the plain store holds: \<open>reports\<close> are the
  settlements reported to the aggregate, \<open>thisStore\<close> is the plain derived store as it is
  when the \<open>await\<close> resumes, and the result is the state of the returned promise with the
  plain store as the call leaves it.
\<close>

definition loadDependencies ::
  "plain_store \<Rightarrow> loader \<Rightarrow> store stores \<Rightarrow> report list \<Rightarrow> pstate \<times> plain_store" where
  "loadDependencies thisStore loadFunction stores reports =
     (case awaited reports (parentLoadFunction loadFunction stores) of
        Pending \<Rightarrow> (Pending, thisStore)
      | Rejected e \<Rightarrow> (Rejected e, thisStore)
      | Fulfilled parentValues \<Rightarrow> (Fulfilled (held thisStore), thisStore))"

section \<open>A chain of async stores\<close>

text \<open>
  A store, then an \<open>asyncDerived\<close> of it, then an \<open>asyncDerived\<close> of that, and so on; the
  list holds the derived stores, the outermost first. Each level has its own variables,
  its flag and its initial value, and for the call at hand its mapping function does
  \<open>lv_mres\<close> and the promise it hands back settles as \<open>lv_settles\<close> says. \<open>chain_store\<close> is the store object on top of the
  chain, its value being the cell of the outermost level. \<open>load_chain\<close> is one \<open>load()\<close> on
  that store, followed down to the innermost store (whose own \<open>load()\<close> promise is in the
  state \<open>leaf_load\<close>) and back with nothing else happening in between.
\<close>

record level =
  lv_state :: async_store
  lv_reloadable :: bool
  lv_initial :: val
  lv_mres :: mapres
  lv_settles :: "(err + val) option"

fun chain_store :: "store \<Rightarrow> level list \<Rightarrow> store" where
  "chain_store leaf [] = leaf"
| "chain_store leaf (l # ls) =
     (asyncDerived (Single (chain_store leaf ls)) (lv_reloadable l) (lv_initial l))
       \<lparr>current := cell (lv_state l)\<rparr>"

fun settlement_report :: "pstate \<Rightarrow> report list" where
  "settlement_report Pending = []"
| "settlement_report (Fulfilled v) = [(0, Inr v)]"
| "settlement_report (Rejected e) = [(0, Inl e)]"

fun load_chain :: "(val list \<Rightarrow> string) \<Rightarrow> store \<Rightarrow> pstate \<Rightarrow> level list \<Rightarrow> pstate \<times> level list" where
  "load_chain stringify leaf leaf_load [] = (leaf_load, [])"
| "load_chain stringify leaf leaf_load (l # ls) =
     (case (if isLoadable (chain_store leaf ls) then load_chain stringify leaf leaf_load ls
            else (Pending, ls)) of
        (parent_load, ls') \<Rightarrow>
          (case loadDependenciesThenSet stringify LoadAll (Single (chain_store leaf ls))
                  (settlement_report parent_load) (Single (chain_store leaf ls')) False
                  (lv_mres l) (lv_state l) of
             (r, s1) \<Rightarrow>
               (let s2 = (case (r, lv_settles l) of
                            (Ret_promise p, Some out) \<Rightarrow> mapping_settled p out s1
                          | _ \<Rightarrow> s1)
                in (ret_state r s2, l\<lparr>lv_state := s2\<rparr> # ls'))))"

section \<open>Serialisation\<close>

text \<open>
  The engine is stated for any serialiser of the dependency values. The worked examples
  use \<open>JSON.stringify\<close> on arrays of the values above: \<open>undefined\<close> inside an array
  prints as \<open>null\<close>, a string prints between double quotes with the quote and the
  backslash escaped (control characters, which the examples do not use, are left as they
  are), and an array prints its elements between brackets, separated by commas.
\<close>

fun escape :: "char \<Rightarrow> string" where
  "escape c = (if c = CHR 0x22 \<or> c = CHR 0x5C then [CHR 0x5C, c] else [c])"

fun commas :: "string list \<Rightarrow> string" where
  "commas [] = []"
| "commas [x] = x"
| "commas (x # y # ys) = x @ '','' @ commas (y # ys)"

fun json :: "val \<Rightarrow> string" where
  "json Undefined = ''null''"
| "json (Str s) = [CHR 0x22] @ concat (map escape s) @ [CHR 0x22]"
| "json (Arr vs) = ''['' @ commas (map json vs) @ '']''"

definition JSON_stringify :: "val list \<Rightarrow> string" where
  "JSON_stringify storeValues = json (Arr storeValues)"

section \<open>Stores and runs of the worked examples\<close>

text \<open>
  The stores of the \<open>loadAll / reloadAll utils\<close> tests: a \<open>readable('A')\<close>, an object with
  only \<open>load\<close>, one with \<open>load\<close> and \<open>reload\<close>, and one whose two methods reject. The
  three hand-made objects have no \<open>subscribe\<close>: the dispatcher calls their methods and
  never reads them, and they are used here only where nothing reads them.
\<close>

definition myNonAsync :: store where
  "myNonAsync = \<lparr>load = None, reload = None, setter = None, current = Str ''A''\<rparr>"

definition myLoadable :: store where
  "myLoadable = \<lparr>load = Some (Foreign 0), reload = None, setter = None, current = Undefined\<rparr>"

definition myReloadable :: store where
  "myReloadable =
     \<lparr>load = Some (Foreign 1), reload = Some (Foreign 2), setter = None, current = Undefined\<rparr>"

definition badLoadable :: store where
  "badLoadable =
     \<lparr>load = Some (Foreign 3), reload = Some (Foreign 4), setter = None, current = Undefined\<rparr>"

text \<open>
  The \<open>writableParent\<close> of the \<open>asyncDerived\<close> tests when it holds \<open>v\<close>, and the cycle
  of \<open>asyncDerived(writableParent, mockReload)\<close> that passes its \<open>await\<close> at that moment:
  it is not forced, its dependency is a plain store (so \<open>loadAll\<close> has nothing to wait
  for), and the mapping function hands back a promise.
\<close>

definition writableParent :: "val \<Rightarrow> store" where
  "writableParent v = \<lparr>load = None, reload = None, setter = Some (Foreign 5), current = v\<rparr>"

definition notified :: "val \<Rightarrow> event" where
  "notified v =
     Resume LoadAll (Single (writableParent v)) [] (Single (writableParent v)) False
       Returns_promise"


text \<open>
  A cycle of an \<open>asyncReadable\<close> store, which has no dependencies: the aggregate of the
  empty list is fulfilled at once, and the mapping function hands back a promise.
\<close>

definition readable_cycle :: "loader \<Rightarrow> bool \<Rightarrow> event" where
  "readable_cycle f force = Resume f (Many []) [] (Many []) force Returns_promise"

text \<open>
  A hand-made Loadable store that holds \<open>v\<close> and whose \<open>load()\<close> may resolve at one call
  and reject at another, with the run of an \<open>asyncDerived\<close> store over it in which the
  mapping function rejects at the first \<open>load()\<close> and the dependency itself rejects at the
  second.
\<close>

definition flakyParent :: store where
  "flakyParent = \<lparr>load = Some (Foreign 6), reload = None, setter = None, current = Str ''v''\<rparr>"

definition flaky_load :: "err + val \<Rightarrow> event" where
  "flaky_load r =
     Resume LoadAll (Single flakyParent) [(0, r)] (Single flakyParent) False Returns_promise"

definition flaky_run :: "event list" where
  "flaky_run =
     [flaky_load (Inr (Str ''v'')), Settled 0 (Inl (Error ''mapping'')),
      flaky_load (Inl (Error ''parent''))]"

text \<open>
  A level of a chain that has never loaded: a store that is not reloadable, starts out
  undefined, and whose mapping function would resolve to \<open>derived\<close>.
\<close>

definition fresh_level :: level where
  "fresh_level =
     \<lparr>lv_state = init_store Undefined, lv_reloadable = False, lv_initial = Undefined,
      lv_mres = Returns_promise, lv_settles = Some (Inr (Str ''derived''))\<rparr>"

text \<open>
  A call of \<open>set\<close> on an \<open>asyncWritable\<close> store over a plain store holding \<open>token\<close>:
  \<open>loadAll\<close> has nothing to wait for, the promise of the write function is in the state
  \<open>w\<close>, and the mapping function of a closing reload would resolve to \<open>reloaded\<close>.
\<close>

definition tokenParent :: "store stores" where
  "tokenParent = Single (writableParent (Str ''token''))"

definition write_finds :: "pstate \<Rightarrow> write_env" where
  "write_finds w =
     \<lparr>load_reports = [], written = w, reload_reports = [], reload_stores_now = tokenParent,
      reload_mres = Returns_promise, reload_settles = Some (Inr (Str ''reloaded''))\<rparr>"

text \<open>
  The dependencies of a \<open>derived\<close> store as in the test \<open>gets derived values after loading
  and reloading\<close>: the writable store holding \<open>writable\<close>, an \<open>asyncReadable\<close> store and a
  reloadable \<open>asyncReadable\<close> store, which hold \<open>undefined\<close> until they have loaded. All
  three are stores of the library, which \<open>get\<close> can read. The store under test maps the
  values of its dependencies to a list headed by \<open>derived from\<close>.
\<close>

definition asyncReadableParent :: "val \<Rightarrow> store" where
  "asyncReadableParent v = (asyncReadable Undefined False)\<lparr>current := v\<rparr>"

definition reloadableGrandparent :: "val \<Rightarrow> store" where
  "reloadableGrandparent v = (asyncReadable Undefined True)\<lparr>current := v\<rparr>"

definition parents :: "val \<Rightarrow> val \<Rightarrow> store stores" where
  "parents l r =
     Many [writableParent (Str ''writable''), asyncReadableParent l, reloadableGrandparent r]"

definition derived_from :: "val \<Rightarrow> val" where
  "derived_from v = Arr [Str ''derived from'', v]"

text \<open>
  The plain store under \<open>derived(parents, derived_from)\<close> once the two async dependencies
  have published \<open>loadable\<close> and \<open>first value\<close>.
\<close>

definition myDerived :: plain_store where
  "myDerived =
     dependency_changed (parents (Str ''loadable'') (Str ''first value'')) derived_from
       (vanillaDerived (parents Undefined Undefined) derived_from)"

text \<open>
  A call of \<open>set\<close> on a reloadable \<open>asyncWritable\<close> store over the plain store and a
  hand-made store that holds \<open>cached\<close> and has a \<open>reload\<close> method but no \<open>load\<close>, so that
  \<open>loadAll\<close> reads it and \<open>reloadAll\<close> reloads it: the write function has resolved to
  \<open>canonical\<close> and the dependency's \<open>reload()\<close> has reported \<open>reports\<close>.
\<close>

definition cachedParents :: "store stores" where
  "cachedParents =
     Many [writableParent (Str ''token''),
           \<lparr>load = None, reload = Some (Foreign 7), setter = None, current = Str ''cached''\<rparr>]"

definition reload_finds :: "report list \<Rightarrow> write_env" where
  "reload_finds reports =
     \<lparr>load_reports = [], written = Fulfilled (Str ''canonical''), reload_reports = reports,
      reload_stores_now = cachedParents, reload_mres = Returns_promise,
      reload_settles = Some (Inr (Str ''reloaded''))\<rparr>"


section \<open>Properties of \<open>Promise.all\<close>\<close>

lemma settled_elements [simp]: "elements (element_settled ev a) = elements a"
  by (auto simp: element_settled_def split: prod.splits sum.splits)

lemma settled_length [simp]: "length (slots (element_settled ev a)) = length (slots a)"
  by (auto simp: element_settled_def split: prod.splits sum.splits)

lemma fold_settled_elements [simp]: "elements (fold element_settled evs a) = elements a"
  by (induction evs arbitrary: a) auto

lemma fold_settled_length [simp]: "length (slots (fold element_settled evs a)) = length (slots a)"
  by (induction evs arbitrary: a) auto

lemma rejected_stays: "rejection a = Some e \<Longrightarrow> fold element_settled evs a = a"
  by (induction evs arbitrary: a) (auto simp: element_settled_def split: prod.splits)

lemma fulfilments_fill:
  "rejection a = None \<Longrightarrow>
     rejection (fold element_settled (map (\<lambda>i. (i, Inr (res i))) js) a) = None \<and>
     (\<forall>j < length (slots a).
        slots (fold element_settled (map (\<lambda>i. (i, Inr (res i))) js) a) ! j =
          (if slots a ! j = None \<and> j \<in> set js then Some (res j) else slots a ! j))"
proof (induction js arbitrary: a)
  case Nil
  then show ?case by simp
next
  case (Cons i js)
  let ?a = "element_settled (i, Inr (res i)) a"
  have r: "rejection ?a = None"
    using Cons.prems by (simp add: element_settled_def)
  have s: "\<forall>j < length (slots a). slots ?a ! j =
             (if slots a ! j = None \<and> j = i then Some (res j) else slots a ! j)"
    using Cons.prems by (auto simp: element_settled_def nth_list_update)
  from Cons.IH [OF r] s show ?case
    by (auto simp: )
qed

lemma fulfil_only_keeps:
  "rejection a = None \<Longrightarrow> \<forall>ev \<in> set pre. \<exists>j v. ev = (j, Inr v) \<and> j \<noteq> i \<Longrightarrow> i < length (slots a) \<Longrightarrow>
     rejection (fold element_settled pre a) = None \<and>
     slots (fold element_settled pre a) ! i = slots a ! i"
proof (induction pre arbitrary: a)
  case Nil
  then show ?case by simp
next
  case (Cons ev pre)
  then obtain j v where ev: "ev = (j, Inr v)" "j \<noteq> i" by auto
  let ?a = "element_settled ev a"
  have r: "rejection ?a = None" and s: "slots ?a ! i = slots a ! i" and l: "i < length (slots ?a)"
    using Cons.prems(1,3) ev by (auto simp: element_settled_def)
  from Cons.IH [OF r _ l] Cons.prems(2) s show ?case by simp
qed

lemma first_rejection_wins:
  assumes "rejection a = None" and "\<forall>ev \<in> set pre. \<exists>j v. ev = (j, Inr v) \<and> j \<noteq> i"
    and "i < length (slots a)" and "slots a ! i = None"
  shows "awaited (pre @ (i, Inl e) # post) a = Rejected e"
proof -
  let ?b = "fold element_settled pre a"
  have b: "rejection ?b = None" "slots ?b ! i = None" "i < length (slots ?b)"
    using fulfil_only_keeps [OF assms(1,2,3)] assms(3,4) by auto
  then have "rejection (element_settled (i, Inl e) ?b) = Some e"
    by (simp add: element_settled_def)
  then have "fold element_settled post (element_settled (i, Inl e) ?b) = element_settled (i, Inl e) ?b"
    by (rule rejected_stays)
  then show ?thesis
    using \<open>rejection (element_settled (i, Inl e) ?b) = Some e\<close>
    by (simp add: aggregate_state_def)
qed

lemma all_filled_state:
  assumes "rejection a = None" and "\<forall>j < length (slots a). slots a ! j = Some (f j)"
  shows "aggregate_state a = Fulfilled (Arr (map f [0..<length (slots a)]))"
proof -
  have 1: "list_all (\<lambda>x. x \<noteq> None) (slots a)"
    using assms(2) by (simp add: list_all_length)
  have 2: "map the (slots a) = map f [0..<length (slots a)]"
    using assms(2) by (intro nth_equalityI) simp_all
  have "aggregate_state a = Fulfilled (Arr (map the (slots a)))"
    using assms(1) 1 by (simp add: aggregate_state_def)
  then show ?thesis by (simp only: 2)
qed


lemma Promise_all_fulfilled:
  assumes "\<forall>j < length es. (\<exists>m. es ! j = Promised m) \<longrightarrow> j \<in> set js"
  shows "awaited (map (\<lambda>i. (i, Inr (res i))) js) (Promise_all es) =
           Fulfilled (Arr (map (\<lambda>j. case es ! j of Promised m \<Rightarrow> res j | Direct v \<Rightarrow> v)
                               [0..<length es]))"
proof -
  let ?a = "Promise_all es"
  let ?b = "fold element_settled (map (\<lambda>i. (i, Inr (res i))) js) ?a"
  have a: "rejection ?a = None" "length (slots ?a) = length es"
    by (simp_all add: Promise_all_def)
  have s: "\<forall>j < length es. slots ?a ! j = (case es ! j of Promised m \<Rightarrow> None | Direct v \<Rightarrow> Some v)"
    by (simp add: Promise_all_def split: element.splits)
  have f: "rejection ?b = None"
    and g: "\<forall>j < length (slots ?a). slots ?b ! j =
              (if slots ?a ! j = None \<and> j \<in> set js then Some (res j) else slots ?a ! j)"
    using fulfilments_fill [OF a(1), of res js] by blast+
  have "\<forall>j < length (slots ?b). slots ?b ! j =
          Some (case es ! j of Promised m \<Rightarrow> res j | Direct v \<Rightarrow> v)"
    using g s assms a(2) by (auto split: element.splits)
  from all_filled_state [OF f this] a(2) show ?thesis by simp
qed

lemma Promise_all_rejected:
  assumes "i < length es" and "es ! i = Promised m"
    and "\<forall>ev \<in> set pre. \<exists>j v. ev = (j, Inr v) \<and> j \<noteq> i"
  shows "awaited (pre @ (i, Inl e) # post) (Promise_all es) = Rejected e"
  using assms by (intro first_rejection_wins) (simp_all add: Promise_all_def)

lemma Promise_all_pending:
  assumes "i < length es" and "es ! i = Promised m"
    and "\<forall>ev \<in> set evs. \<exists>j v. ev = (j, Inr v) \<and> j \<noteq> i"
  shows "awaited evs (Promise_all es) = Pending"
proof -
  let ?a = "Promise_all es"
  let ?b = "fold element_settled evs ?a"
  have a: "rejection ?a = None" "i < length (slots ?a)" "slots ?a ! i = None"
    using assms(1,2) by (simp_all add: Promise_all_def)
  from fulfil_only_keeps [OF a(1) assms(3) a(2)] a(3)
  have b: "rejection ?b = None" "slots ?b ! i = None" by simp_all
  have "i < length (slots ?b)" using a(2) by simp
  with b(2) have "\<not> list_all (\<lambda>x. x \<noteq> None) (slots ?b)"
    by (auto simp: list_all_length)
  with b(1) show ?thesis by (simp add: aggregate_state_def)
qed

lemma loadAll_element:
  "j < length (getStoresArray ss) \<Longrightarrow>
     elements (loadAll ss) ! j =
       (case load (getStoresArray ss ! j) of
          Some m \<Rightarrow> Promised m
        | None \<Rightarrow> Direct (get (getStoresArray ss ! j)))"
  by (simp add: loadAll_def Promise_all_def)

lemma reloadAll_element:
  "j < length (getStoresArray ss) \<Longrightarrow>
     elements (reloadAll ss) ! j =
       (case reload (getStoresArray ss ! j) of
          Some m \<Rightarrow> Promised m
        | None \<Rightarrow> (case load (getStoresArray ss ! j) of
                     Some m \<Rightarrow> Promised m
                   | None \<Rightarrow> Direct (get (getStoresArray ss ! j))))"
  by (simp add: reloadAll_def Promise_all_def)


section \<open>The dispatcher joins all or nothing, in input order\<close>

text \<open>
  Claim C3. \<open>loadAll\<close> turns every store of its input, a single store counting as a list
  of one, into one element in the same position: the promise of its \<open>load()\<close> when the
  store has a \<open>load\<close> property, the value read by \<open>get\<close> otherwise. Once every invoked
  \<open>load()\<close> has fulfilled, in any order of settlement, the aggregate is fulfilled with
  the list of the values in input order (a list of one for a single store). When the load
  of an element rejects before any other does, the aggregate is rejected with exactly that
  error, whatever the other elements report before or after. As long as the \<open>load()\<close> of
  one element has reported nothing and no other has rejected, the aggregate is pending,
  however many of the others have fulfilled: partial results are never given.
\<close>

theorem loadAll_joins_in_order:
  "length (elements (loadAll ss)) = length (getStoresArray ss) \<and>
   (\<forall>j < length (getStoresArray ss).
      elements (loadAll ss) ! j =
        (case load (getStoresArray ss ! j) of
           Some m \<Rightarrow> Promised m
         | None \<Rightarrow> Direct (get (getStoresArray ss ! j)))) \<and>
   (\<forall>js res.
      (\<forall>j < length (getStoresArray ss). isLoadable (getStoresArray ss ! j) \<longrightarrow> j \<in> set js) \<longrightarrow>
      awaited (map (\<lambda>i. (i, Inr (res i))) js) (loadAll ss) =
        Fulfilled (Arr (map (\<lambda>j. if isLoadable (getStoresArray ss ! j) then res j
                                  else get (getStoresArray ss ! j))
                            [0..<length (getStoresArray ss)]))) \<and>
   (\<forall>s v. ss = Single s \<and> isLoadable s \<longrightarrow>
      aggregate_state (element_settled (0, Inr v) (loadAll ss)) = Fulfilled (Arr [v])) \<and>
   (\<forall>s. ss = Single s \<and> \<not> isLoadable s \<longrightarrow>
      aggregate_state (loadAll ss) = Fulfilled (Arr [get s])) \<and>
   (\<forall>pre i e post.
      i < length (getStoresArray ss) \<and> isLoadable (getStoresArray ss ! i) \<and>
      (\<forall>ev \<in> set pre. \<exists>j v. ev = (j, Inr v) \<and> j \<noteq> i) \<longrightarrow>
      awaited (pre @ (i, Inl e) # post) (loadAll ss) = Rejected e) \<and>
   (\<forall>evs i.
      i < length (getStoresArray ss) \<and> isLoadable (getStoresArray ss ! i) \<and>
      (\<forall>ev \<in> set evs. \<exists>j v. ev = (j, Inr v) \<and> j \<noteq> i) \<longrightarrow>
      awaited evs (loadAll ss) = Pending)"
proof -
  let ?xs = "getStoresArray ss"
  let ?es = "map (\<lambda>s. case load s of Some m \<Rightarrow> Promised m | None \<Rightarrow> Direct (get s)) ?xs"
  have la: "loadAll ss = Promise_all ?es" by (simp add: loadAll_def)
  have len: "length (elements (loadAll ss)) = length ?xs"
    by (simp add: loadAll_def Promise_all_def)
  have ful: "awaited (map (\<lambda>i. (i, Inr (res i))) js) (loadAll ss) =
        Fulfilled (Arr (map (\<lambda>j. if isLoadable (?xs ! j) then res j else get (?xs ! j))
                            [0..<length ?xs]))"
    if c: "\<forall>j < length ?xs. isLoadable (?xs ! j) \<longrightarrow> j \<in> set js" for js res
  proof -
    have "\<forall>j < length ?es. (\<exists>m. ?es ! j = Promised m) \<longrightarrow> j \<in> set js"
      using c by (auto simp: isLoadable_def split: option.splits)
    from Promise_all_fulfilled [OF this, of res]
    have "awaited (map (\<lambda>i. (i, Inr (res i))) js) (loadAll ss) =
            Fulfilled (Arr (map (\<lambda>j. case ?es ! j of Promised m \<Rightarrow> res j | Direct v \<Rightarrow> v)
                                [0..<length ?xs]))"
      by (simp add: la)
    moreover have "map (\<lambda>j. case ?es ! j of Promised m \<Rightarrow> res j | Direct v \<Rightarrow> v) [0..<length ?xs] =
                   map (\<lambda>j. if isLoadable (?xs ! j) then res j else get (?xs ! j)) [0..<length ?xs]"
      by (rule map_cong) (auto simp: isLoadable_def split: option.splits)
    ultimately show ?thesis by simp
  qed
  have one: "aggregate_state (element_settled (0, Inr v) (loadAll ss)) = Fulfilled (Arr [v])"
    if "ss = Single s" "isLoadable s" for s v
    using that ful [of "[0]" "\<lambda>i. v"] by simp
  have none: "aggregate_state (loadAll ss) = Fulfilled (Arr [get s])"
    if "ss = Single s" "\<not> isLoadable s" for s
    using that ful [of "[]" "\<lambda>i. Undefined"] by simp
  have rej: "awaited (pre @ (i, Inl e) # post) (loadAll ss) = Rejected e"
    if h: "i < length ?xs" "isLoadable (?xs ! i)" "\<forall>ev \<in> set pre. \<exists>j v. ev = (j, Inr v) \<and> j \<noteq> i"
    for pre i e post
  proof -
    obtain m where "?es ! i = Promised m"
      using h(1,2) by (auto simp: isLoadable_def)
    with h show ?thesis
      unfolding la by (intro Promise_all_rejected) simp_all
  qed
  have pend: "awaited evs (loadAll ss) = Pending"
    if h: "i < length ?xs" "isLoadable (?xs ! i)" "\<forall>ev \<in> set evs. \<exists>j v. ev = (j, Inr v) \<and> j \<noteq> i"
    for evs i
  proof -
    obtain m where "?es ! i = Promised m"
      using h(1,2) by (auto simp: isLoadable_def)
    with h show ?thesis
      unfolding la by (intro Promise_all_pending) simp_all
  qed
  show ?thesis
    by (intro conjI allI impI; (elim conjE)?)
       (rule len loadAll_element ful one none rej pend; assumption)+
qed


theorem loadAll_joins_in_order_witness:
  "awaited [(2, Inr (Str ''C'')), (1, Inr (Str ''B''))]
       (loadAll (Many [myNonAsync, myLoadable, myReloadable])) =
     Fulfilled (Arr [Str ''A'', Str ''B'', Str ''C'']) \<and>
   aggregate_state (element_settled (0, Inr (Str ''B'')) (loadAll (Single myLoadable))) =
     Fulfilled (Arr [Str ''B'']) \<and>
   awaited [(0, Inr (Str ''B'')), (1, Inl (Error ''E''))]
       (loadAll (Many [myLoadable, badLoadable])) = Rejected (Error ''E'') \<and>
   awaited [] (loadAll (Many [myNonAsync, myLoadable, myReloadable])) = Pending \<and>
   awaited [(2, Inr (Str ''C''))] (loadAll (Many [myNonAsync, myLoadable, myReloadable])) = Pending \<and>
   awaited [] (loadAll (Single myLoadable)) = Pending"
proof -
  let ?ss = "Many [myNonAsync, myLoadable, myReloadable]"
  let ?res = "\<lambda>i::nat. if i = 1 then Str ''B'' else Str ''C''"
  have c: "j \<in> set [2, 1]"
    if "j < length (getStoresArray ?ss)" "isLoadable (getStoresArray ?ss ! j)" for j
    using that by (auto simp: isLoadable_def myNonAsync_def less_Suc_eq nth_Cons')
  have 1: "awaited [(2, Inr (Str ''C'')), (1, Inr (Str ''B''))] (loadAll ?ss) =
             Fulfilled (Arr [Str ''A'', Str ''B'', Str ''C''])"
    using loadAll_joins_in_order [of ?ss, THEN conjunct2, THEN conjunct2, THEN conjunct1,
            rule_format, of "[2, 1]" ?res, OF c]
    by (simp add: isLoadable_def myNonAsync_def myLoadable_def myReloadable_def get_def
                  upt_rec [of 0] upt_rec [of 1] upt_rec [of 2] upt_rec [of 3])
  have 2: "aggregate_state (element_settled (0, Inr (Str ''B'')) (loadAll (Single myLoadable))) =
             Fulfilled (Arr [Str ''B''])"
    using loadAll_joins_in_order [of "Single myLoadable", THEN conjunct2, THEN conjunct2,
            THEN conjunct2, THEN conjunct1, rule_format, of myLoadable "Str ''B''"]
    by (simp add: isLoadable_def myLoadable_def)
  have 3: "awaited ([(0, Inr (Str ''B''))] @ (1, Inl (Error ''E'')) # [])
             (loadAll (Many [myLoadable, badLoadable])) = Rejected (Error ''E'')"
    using loadAll_joins_in_order [of "Many [myLoadable, badLoadable]", THEN conjunct2,
            THEN conjunct2, THEN conjunct2, THEN conjunct2, THEN conjunct2, THEN conjunct1,
            rule_format, of 1 "[(0, Inr (Str ''B''))]" "Error ''E''" "[]"]
    by (simp add: isLoadable_def badLoadable_def)
  note p = loadAll_joins_in_order [THEN conjunct2, THEN conjunct2, THEN conjunct2,
             THEN conjunct2, THEN conjunct2, THEN conjunct2, rule_format]
  have 4: "awaited [] (loadAll ?ss) = Pending"
    using p [of 1 ?ss "[]"] by (simp add: isLoadable_def myLoadable_def)
  have 5: "awaited [(2, Inr (Str ''C''))] (loadAll ?ss) = Pending"
    using p [of 1 ?ss "[(2, Inr (Str ''C''))]"] by (simp add: isLoadable_def myLoadable_def)
  have 6: "awaited [] (loadAll (Single myLoadable)) = Pending"
    using p [of 0 "Single myLoadable" "[]"] by (simp add: isLoadable_def myLoadable_def)
  from 1 2 3 4 5 6 show ?thesis by simp
qed


text \<open>
  Claim C4. \<open>reloadAll\<close> turns every store of its input into one element in the same
  position: the promise of its \<open>reload()\<close> when the store has a \<open>reload\<close> property,
  otherwise the promise of its \<open>load()\<close> when it has a \<open>load\<close> property, otherwise the
  value read by \<open>get\<close>; so \<open>reload()\<close> is invoked on the stores that expose it and on no
  other. The elements are joined as in \<open>loadAll\<close>: the values in input order once every
  invoked operation has fulfilled, the first rejection otherwise, and a pending aggregate
  as long as one invoked operation has reported nothing and no other has rejected.
\<close>

theorem reloadAll_reloads_loads_or_reads:
  "length (elements (reloadAll ss)) = length (getStoresArray ss) \<and>
   (\<forall>j < length (getStoresArray ss).
      elements (reloadAll ss) ! j =
        (case reload (getStoresArray ss ! j) of
           Some m \<Rightarrow> Promised m
         | None \<Rightarrow> (case load (getStoresArray ss ! j) of
                      Some m \<Rightarrow> Promised m
                    | None \<Rightarrow> Direct (get (getStoresArray ss ! j))))) \<and>
   (\<forall>js res.
      (\<forall>j < length (getStoresArray ss).
         (isReloadable (getStoresArray ss ! j) \<or> isLoadable (getStoresArray ss ! j)) \<longrightarrow>
         j \<in> set js) \<longrightarrow>
      awaited (map (\<lambda>i. (i, Inr (res i))) js) (reloadAll ss) =
        Fulfilled (Arr (map (\<lambda>j. if isReloadable (getStoresArray ss ! j) \<or>
                                     isLoadable (getStoresArray ss ! j)
                                  then res j else get (getStoresArray ss ! j))
                            [0..<length (getStoresArray ss)]))) \<and>
   (\<forall>s v. ss = Single s \<and> (isReloadable s \<or> isLoadable s) \<longrightarrow>
      aggregate_state (element_settled (0, Inr v) (reloadAll ss)) = Fulfilled (Arr [v])) \<and>
   (\<forall>s. ss = Single s \<and> \<not> isReloadable s \<and> \<not> isLoadable s \<longrightarrow>
      aggregate_state (reloadAll ss) = Fulfilled (Arr [get s])) \<and>
   (\<forall>pre i e post.
      i < length (getStoresArray ss) \<and>
      (isReloadable (getStoresArray ss ! i) \<or> isLoadable (getStoresArray ss ! i)) \<and>
      (\<forall>ev \<in> set pre. \<exists>j v. ev = (j, Inr v) \<and> j \<noteq> i) \<longrightarrow>
      awaited (pre @ (i, Inl e) # post) (reloadAll ss) = Rejected e) \<and>
   (\<forall>evs i.
      i < length (getStoresArray ss) \<and>
      (isReloadable (getStoresArray ss ! i) \<or> isLoadable (getStoresArray ss ! i)) \<and>
      (\<forall>ev \<in> set evs. \<exists>j v. ev = (j, Inr v) \<and> j \<noteq> i) \<longrightarrow>
      awaited evs (reloadAll ss) = Pending)"
proof -
  let ?xs = "getStoresArray ss"
  let ?es = "map (\<lambda>s. case reload s of Some m \<Rightarrow> Promised m
                      | None \<Rightarrow> (case load s of Some m \<Rightarrow> Promised m | None \<Rightarrow> Direct (get s))) ?xs"
  have la: "reloadAll ss = Promise_all ?es" by (simp add: reloadAll_def)
  have len: "length (elements (reloadAll ss)) = length ?xs"
    by (simp add: reloadAll_def Promise_all_def)
  have ful: "awaited (map (\<lambda>i. (i, Inr (res i))) js) (reloadAll ss) =
        Fulfilled (Arr (map (\<lambda>j. if isReloadable (?xs ! j) \<or> isLoadable (?xs ! j) then res j
                                  else get (?xs ! j))
                            [0..<length ?xs]))"
    if c: "\<forall>j < length ?xs. (isReloadable (?xs ! j) \<or> isLoadable (?xs ! j)) \<longrightarrow> j \<in> set js"
    for js res
  proof -
    have "\<forall>j < length ?es. (\<exists>m. ?es ! j = Promised m) \<longrightarrow> j \<in> set js"
      using c by (auto simp: isLoadable_def isReloadable_def split: option.splits)
    from Promise_all_fulfilled [OF this, of res]
    have "awaited (map (\<lambda>i. (i, Inr (res i))) js) (reloadAll ss) =
            Fulfilled (Arr (map (\<lambda>j. case ?es ! j of Promised m \<Rightarrow> res j | Direct v \<Rightarrow> v)
                                [0..<length ?xs]))"
      by (simp add: la)
    moreover have "map (\<lambda>j. case ?es ! j of Promised m \<Rightarrow> res j | Direct v \<Rightarrow> v) [0..<length ?xs] =
                   map (\<lambda>j. if isReloadable (?xs ! j) \<or> isLoadable (?xs ! j) then res j
                             else get (?xs ! j)) [0..<length ?xs]"
      by (rule map_cong) (auto simp: isLoadable_def isReloadable_def split: option.splits)
    ultimately show ?thesis by simp
  qed
  have one: "aggregate_state (element_settled (0, Inr v) (reloadAll ss)) = Fulfilled (Arr [v])"
    if "ss = Single s" "isReloadable s \<or> isLoadable s" for s v
    using that ful [of "[0]" "\<lambda>i. v"] by simp
  have none: "aggregate_state (reloadAll ss) = Fulfilled (Arr [get s])"
    if "ss = Single s" "\<not> isReloadable s" "\<not> isLoadable s" for s
    using that ful [of "[]" "\<lambda>i. Undefined"] by simp
  have rej: "awaited (pre @ (i, Inl e) # post) (reloadAll ss) = Rejected e"
    if h: "i < length ?xs" "isReloadable (?xs ! i) \<or> isLoadable (?xs ! i)"
          "\<forall>ev \<in> set pre. \<exists>j v. ev = (j, Inr v) \<and> j \<noteq> i"
    for pre i e post
  proof -
    have "\<exists>m. ?es ! i = Promised m"
      using h(1,2)
      by (cases "reload (?xs ! i)"; cases "load (?xs ! i)")
         (simp_all add: isLoadable_def isReloadable_def)
    then obtain m where "?es ! i = Promised m" ..
    with h show ?thesis
      unfolding la by (intro Promise_all_rejected) simp_all
  qed
  have pend: "awaited evs (reloadAll ss) = Pending"
    if h: "i < length ?xs" "isReloadable (?xs ! i) \<or> isLoadable (?xs ! i)"
          "\<forall>ev \<in> set evs. \<exists>j v. ev = (j, Inr v) \<and> j \<noteq> i"
    for evs i
  proof -
    have "\<exists>m. ?es ! i = Promised m"
      using h(1,2)
      by (cases "reload (?xs ! i)"; cases "load (?xs ! i)")
         (simp_all add: isLoadable_def isReloadable_def)
    then obtain m where "?es ! i = Promised m" ..
    with h show ?thesis
      unfolding la by (intro Promise_all_pending) simp_all
  qed
  show ?thesis
    by (intro conjI allI impI; (elim conjE)?)
       (rule len reloadAll_element ful one none rej pend; assumption)+
qed

theorem reloadAll_reloads_loads_or_reads_witness:
  "elements (reloadAll (Many [myNonAsync, myLoadable, myReloadable])) ! 2 = Promised (Foreign 2) \<and>
   elements (reloadAll (Many [myNonAsync, myLoadable, myReloadable])) ! 1 = Promised (Foreign 0) \<and>
   awaited [(2, Inr (Str ''D'')), (1, Inr (Str ''B''))]
       (reloadAll (Many [myNonAsync, myLoadable, myReloadable])) =
     Fulfilled (Arr [Str ''A'', Str ''B'', Str ''D'']) \<and>
   aggregate_state (element_settled (0, Inr (Str ''D'')) (reloadAll (Single myReloadable))) =
     Fulfilled (Arr [Str ''D'']) \<and>
   awaited [(0, Inr (Str ''B'')), (1, Inl (Error ''F''))]
       (reloadAll (Many [myLoadable, badLoadable])) = Rejected (Error ''F'') \<and>
   awaited [] (reloadAll (Many [myNonAsync, myLoadable, myReloadable])) = Pending \<and>
   awaited [(1, Inr (Str ''B''))] (reloadAll (Many [myNonAsync, myLoadable, myReloadable])) = Pending \<and>
   awaited [] (reloadAll (Single myReloadable)) = Pending"
proof -
  let ?ss = "Many [myNonAsync, myLoadable, myReloadable]"
  let ?res = "\<lambda>i::nat. if i = 1 then Str ''B'' else Str ''D''"
  note t = reloadAll_reloads_loads_or_reads [of ?ss]
  have c: "j \<in> set [2, 1]"
    if "j < length (getStoresArray ?ss)"
       "isReloadable (getStoresArray ?ss ! j) \<or> isLoadable (getStoresArray ?ss ! j)" for j
    using that by (auto simp: isLoadable_def isReloadable_def myNonAsync_def less_Suc_eq nth_Cons')
  have 0: "elements (reloadAll ?ss) ! 2 = Promised (Foreign 2) \<and>
           elements (reloadAll ?ss) ! 1 = Promised (Foreign 0)"
    using t [THEN conjunct2, THEN conjunct1, rule_format, of 2]
          t [THEN conjunct2, THEN conjunct1, rule_format, of 1]
    by (simp add: myLoadable_def myReloadable_def)
  have 1: "awaited [(2, Inr (Str ''D'')), (1, Inr (Str ''B''))] (reloadAll ?ss) =
             Fulfilled (Arr [Str ''A'', Str ''B'', Str ''D''])"
    using t [THEN conjunct2, THEN conjunct2, THEN conjunct1, rule_format, of "[2, 1]" ?res, OF c]
    by (simp add: isLoadable_def isReloadable_def myNonAsync_def myLoadable_def myReloadable_def
                  get_def upt_rec [of 0] upt_rec [of 1] upt_rec [of 2] upt_rec [of 3])
  have 2: "aggregate_state (element_settled (0, Inr (Str ''D'')) (reloadAll (Single myReloadable))) =
             Fulfilled (Arr [Str ''D''])"
    using reloadAll_reloads_loads_or_reads [of "Single myReloadable", THEN conjunct2,
            THEN conjunct2, THEN conjunct2, THEN conjunct1, rule_format, of myReloadable "Str ''D''"]
    by (simp add: isReloadable_def myReloadable_def)
  have 3: "awaited ([(0, Inr (Str ''B''))] @ (1, Inl (Error ''F'')) # [])
             (reloadAll (Many [myLoadable, badLoadable])) = Rejected (Error ''F'')"
    using reloadAll_reloads_loads_or_reads [of "Many [myLoadable, badLoadable]", THEN conjunct2,
            THEN conjunct2, THEN conjunct2, THEN conjunct2, THEN conjunct2, THEN conjunct1,
            rule_format, of 1 "[(0, Inr (Str ''B''))]" "Error ''F''" "[]"]
    by (simp add: isReloadable_def badLoadable_def)
  note p = reloadAll_reloads_loads_or_reads [THEN conjunct2, THEN conjunct2, THEN conjunct2,
             THEN conjunct2, THEN conjunct2, THEN conjunct2, rule_format]
  have 4: "awaited [] (reloadAll ?ss) = Pending"
    using p [of 2 ?ss "[]"] by (simp add: isReloadable_def myReloadable_def)
  have 5: "awaited [(1, Inr (Str ''B''))] (reloadAll ?ss) = Pending"
    using p [of 2 ?ss "[(1, Inr (Str ''B''))]"] by (simp add: isReloadable_def myReloadable_def)
  have 6: "awaited [] (reloadAll (Single myReloadable)) = Pending"
    using p [of 0 "Single myReloadable" "[]"] by (simp add: isReloadable_def myReloadable_def)
  from 0 1 2 3 4 5 6 show ?thesis by simp
qed

section \<open>Basic facts about the engine\<close>

lemma run_Nil [simp]: "run f s [] = s"
  by (simp add: run_def)

lemma run_Cons [simp]: "run f s (e # es) = run f (step f s e) es"
  by (simp add: run_def)

lemma run_append [simp]: "run f s (es @ fs) = run f (run f s es) fs"
  by (simp add: run_def)

lemma settled_keeps [simp]:
  "calls (mapping_settled p r s) = calls s"
  "loadedValuesString (mapping_settled p r s) = loadedValuesString s"
  "currentLoadPromise (mapping_settled p r s) = currentLoadPromise s"
  "writes (mapping_settled p r s) = writes s"
  "length (heap (mapping_settled p r s)) = length (heap s)"
  by (auto simp: mapping_settled_def thisStore_set_def split: sum.splits)

lemma set_keeps [simp]:
  "calls (thisStore_set v s) = calls s"
  "loadedValuesString (thisStore_set v s) = loadedValuesString s"
  "currentLoadPromise (thisStore_set v s) = currentLoadPromise s"
  "heap (thisStore_set v s) = heap s"
  "writes (thisStore_set v s) = writes s"
  "cell (thisStore_set v s) = v"
  "sets (thisStore_set v s) = sets s @ [v]"
  by (auto simp: thisStore_set_def)

lemma cycle_heap_grows:
  assumes "loadDependenciesThenSet stringify f stores reports stores_now force mres s = (r, s')"
    and "p < length (heap s)"
  shows "p < length (heap s') \<and> heap s' ! p = heap s ! p"
  using assms
  by (auto simp: loadDependenciesThenSet_def Let_def nth_append
           split: pstate.splits option.splits mapres.splits if_splits)

lemma step_keeps_settled:
  assumes "p < length (heap s)" and "heap s ! p \<noteq> Pending"
  shows "p < length (heap (step stringify s ev)) \<and> heap (step stringify s ev) ! p = heap s ! p"
proof (cases ev)
  case (Resume f stores reports stores_now force mres)
  then show ?thesis
    using cycle_heap_grows [OF _ assms(1), of stringify f stores reports stores_now force mres]
    by (cases "loadDependenciesThenSet stringify f stores reports stores_now force mres s") simp
next
  case (Settled q r)
  then show ?thesis
    using assms
    by (cases "q = p") (auto simp: mapping_settled_def thisStore_set_def split: sum.splits)
next
  case (Set_cell v)
  then show ?thesis using assms by simp
qed

lemma run_keeps_settled:
  assumes "p < length (heap s)" and "heap s ! p \<noteq> Pending"
  shows "p < length (heap (run stringify s es)) \<and> heap (run stringify s es) ! p = heap s ! p"
  using assms
proof (induction es arbitrary: s)
  case Nil
  then show ?case by simp
next
  case (Cons ev es)
  from step_keeps_settled [OF Cons.prems, of stringify ev]
  have "p < length (heap (step stringify s ev))" "heap (step stringify s ev) ! p = heap s ! p"
    by simp_all
  with Cons.IH [of "step stringify s ev"] Cons.prems(2) show ?case by simp
qed

lemma dedup_returns_current:
  assumes "awaited reports (parentLoadFunction f stores) = Fulfilled pv"
    and "Some (stringify (map get (getStoresArray stores_now))) = loadedValuesString s"
  shows "loadDependenciesThenSet stringify f stores reports stores_now False mres s =
           ((case currentLoadPromise s of Some p \<Rightarrow> Ret_promise p | None \<Rightarrow> Ret_undefined), s)"
  using assms by (simp add: loadDependenciesThenSet_def split: option.splits)

lemma unforced_step_once:
  assumes "unforced_with_key stringify k ev"
  shows "(calls (step stringify s ev) = calls s \<and>
          loadedValuesString (step stringify s ev) = loadedValuesString s) \<or>
         (loadedValuesString (step stringify s ev) = Some k \<and>
          (\<exists>arg. calls (step stringify s ev) = calls s @ [arg]))"
  using assms
  by (cases ev)
     (auto simp: loadDependenciesThenSet_def Let_def
           split: pstate.splits option.splits mapres.splits)

lemma unforced_same_key_step:
  assumes "unforced_with_key stringify k ev" and "loadedValuesString s = Some k"
  shows "loadedValuesString (step stringify s ev) = Some k \<and> calls (step stringify s ev) = calls s"
  using assms
  by (cases ev)
     (auto simp: loadDependenciesThenSet_def Let_def
           split: pstate.splits option.splits mapres.splits)

lemma same_key_run:
  assumes "\<forall>ev \<in> set es. unforced_with_key stringify k ev" and "loadedValuesString s = Some k"
  shows "loadedValuesString (run stringify s es) = Some k \<and> calls (run stringify s es) = calls s"
  using assms
proof (induction es arbitrary: s)
  case Nil
  then show ?case by simp
next
  case (Cons ev es)
  from Cons.prems have "unforced_with_key stringify k ev" by simp
  from unforced_same_key_step [OF this Cons.prems(2)] Cons.IH [of "step stringify s ev"] Cons.prems(1)
  show ?case by simp
qed

lemma at_most_once_run:
  assumes "\<forall>ev \<in> set es. unforced_with_key stringify k ev"
  shows "calls (run stringify s es) = calls s \<or> (\<exists>arg. calls (run stringify s es) = calls s @ [arg])"
  using assms
proof (induction es arbitrary: s)
  case Nil
  then show ?case by simp
next
  case (Cons ev es)
  let ?t = "step stringify s ev"
  from Cons.prems have a: "unforced_with_key stringify k ev"
    and r: "\<forall>ev \<in> set es. unforced_with_key stringify k ev"
    by simp_all
  from unforced_step_once [OF a, of s]
  show ?case
  proof
    assume "calls ?t = calls s \<and> loadedValuesString ?t = loadedValuesString s"
    with Cons.IH [OF r, of ?t] show ?thesis by simp
  next
    assume h: "loadedValuesString ?t = Some k \<and> (\<exists>arg. calls ?t = calls s @ [arg])"
    with same_key_run [OF r, of ?t] show ?thesis by simp
  qed
qed

section \<open>Memoisation of the load cycle\<close>

text \<open>
  Claim C1. A cycle that is not forced, whose dependencies have loaded and whose
  dependency values serialise to the recorded \<open>loadedValuesString\<close>, returns the existing
  \<open>currentLoadPromise\<close> and leaves every variable of the store as it was: no invocation of
  the mapping function, no new promise, no \<open>thisStore.set\<close>. Consequently, over any run
  of events in which every cycle is unforced and reads dependency values with the same
  serialisation \<open>k\<close> (with promises settling and \<open>set\<close> calls in between, in any
  order), the mapping function is invoked at most once, and not at all when \<open>k\<close> is
  already the recorded key.
\<close>

theorem unchanged_dependencies_load_once:
  "(awaited reports (parentLoadFunction f stores) = Fulfilled pv \<and>
    Some (stringify (map get (getStoresArray stores_now))) = loadedValuesString s \<longrightarrow>
      loadDependenciesThenSet stringify f stores reports stores_now False mres s =
        ((case currentLoadPromise s of Some p \<Rightarrow> Ret_promise p | None \<Rightarrow> Ret_undefined), s)) \<and>
   ((\<forall>ev \<in> set es. unforced_with_key stringify k ev) \<longrightarrow>
      (calls (run stringify s es) = calls s \<or>
       (\<exists>arg. calls (run stringify s es) = calls s @ [arg])) \<and>
      (loadedValuesString s = Some k \<longrightarrow> calls (run stringify s es) = calls s))"
  using dedup_returns_current [of reports f stores pv stringify stores_now s mres]
        at_most_once_run [of es stringify k s] same_key_run [of es stringify k s]
  by blast

lemma notified_key:
  "unforced_with_key JSON_stringify (JSON_stringify [v]) (notified v)"
  by (simp add: notified_def get_def writableParent_def split: pstate.splits)

lemma notified_loaded:
  "awaited [] (parentLoadFunction LoadAll (Single (writableParent v))) =
     Fulfilled (Arr [v])"
  by (simp add: loadAll_def Promise_all_def aggregate_state_def writableParent_def get_def)

theorem unchanged_dependencies_load_once_witness:
  "list_all (unforced_with_key JSON_stringify (JSON_stringify [Str ''writable'']))
     [notified (Str ''writable''), notified (Str ''writable''),
      Settled 0 (Inr (Str ''first value'')), notified (Str ''writable'')] \<and>
   (calls (run JSON_stringify (init_store Undefined)
            [notified (Str ''writable''), notified (Str ''writable''),
             Settled 0 (Inr (Str ''first value'')), notified (Str ''writable'')]) =
      calls (init_store Undefined) \<or>
    (\<exists>arg. calls (run JSON_stringify (init_store Undefined)
            [notified (Str ''writable''), notified (Str ''writable''),
             Settled 0 (Inr (Str ''first value'')), notified (Str ''writable'')]) =
      calls (init_store Undefined) @ [arg])) \<and>
   calls (run JSON_stringify (init_store Undefined)
            [notified (Str ''writable''), notified (Str ''writable''),
             Settled 0 (Inr (Str ''first value'')), notified (Str ''writable'')]) =
     [Str ''writable'']"
proof -
  have main:
      "(\<forall>ev \<in> set [notified (Str ''writable''), notified (Str ''writable''),
                   Settled 0 (Inr (Str ''first value'')), notified (Str ''writable'')].
        unforced_with_key JSON_stringify (JSON_stringify [Str ''writable'']) ev) \<and>
     (calls (run JSON_stringify (init_store Undefined)
              [notified (Str ''writable''), notified (Str ''writable''),
               Settled 0 (Inr (Str ''first value'')), notified (Str ''writable'')]) =
        calls (init_store Undefined) \<or>
      (\<exists>arg. calls (run JSON_stringify (init_store Undefined)
              [notified (Str ''writable''), notified (Str ''writable''),
               Settled 0 (Inr (Str ''first value'')), notified (Str ''writable'')]) =
        calls (init_store Undefined) @ [arg])) \<and>
     calls (run JSON_stringify (init_store Undefined)
              [notified (Str ''writable''), notified (Str ''writable''),
               Settled 0 (Inr (Str ''first value'')), notified (Str ''writable'')]) =
       [Str ''writable'']"
  proof -
    let ?es = "[notified (Str ''writable''), notified (Str ''writable''),
                Settled 0 (Inr (Str ''first value'')), notified (Str ''writable'')]"
    let ?k = "JSON_stringify [Str ''writable'']"
    have h: "\<forall>ev \<in> set ?es. unforced_with_key JSON_stringify ?k ev"
      by (simp add: notified_key)
    have 1: "calls (run JSON_stringify (init_store Undefined) ?es) = calls (init_store Undefined) \<or>
          (\<exists>arg. calls (run JSON_stringify (init_store Undefined) ?es) =
                  calls (init_store Undefined) @ [arg])"
      using unchanged_dependencies_load_once
              [where es = ?es and stringify = JSON_stringify and k = ?k and s = "init_store Undefined"] h
      by blast
    have 2: "calls (run JSON_stringify (init_store Undefined) ?es) = [Str ''writable'']"
      by code_simp
    from h 1 2 show ?thesis by blast
  qed
  then show ?thesis unfolding list_all_iff .
qed

section \<open>Overlapping computations\<close>

lemma new_computation:
  assumes "awaited reports (parentLoadFunction f stores) = Fulfilled pv"
    and "force \<or> Some (stringify (map get (getStoresArray stores_now))) \<noteq> loadedValuesString s"
  shows "loadDependenciesThenSet stringify f stores reports stores_now force Returns_promise s =
           (Ret_promise (length (heap s)),
            s\<lparr>loadedValuesString :=
                 (if force then loadedValuesString s
                  else Some (stringify (map get (getStoresArray stores_now)))),
               calls := calls s @
                 [if isArray stores then Arr (map get (getStoresArray stores_now))
                  else (case map get (getStoresArray stores_now) of [] \<Rightarrow> Undefined | v # vs \<Rightarrow> v)],
               heap := heap s @ [Pending],
               currentLoadPromise := Some (length (heap s))\<rparr>)"
  using assms by (auto simp: loadDependenciesThenSet_def Let_def)

















section \<open>Failures of the mapping function\<close>

lemma rejection_publishes_nothing:
  assumes "p < length (heap t)" and "heap t ! p = Pending"
  shows "cell (mapping_settled p (Inl e) t) = cell t \<and>
         sets (mapping_settled p (Inl e) t) = sets t \<and>
         ret_state (Ret_promise p) (mapping_settled p (Inl e) t) = Rejected e \<and>
         ret_state (Ret_promise p) (run stringify (mapping_settled p (Inl e) t) fs) = Rejected e"
proof -
  let ?t = "mapping_settled p (Inl e) t"
  have h: "p < length (heap ?t)" "heap ?t ! p = Rejected e"
    using assms by (simp_all add: mapping_settled_def)
  then have "heap ?t ! p \<noteq> Pending" by simp
  from run_keeps_settled [OF h(1) this, of stringify fs] h assms
  show ?thesis by (simp add: ret_state_def mapping_settled_def)
qed

lemma invoked_promise_pending:
  assumes "loadDependenciesThenSet stringify f stores reports stores_now force Returns_promise s = (r, s1)"
    and "calls s1 \<noteq> calls s"
  shows "r = Ret_promise (length (heap s)) \<and> length (heap s) < length (heap s1) \<and>
         heap s1 ! length (heap s) = Pending \<and> cell s1 = cell s \<and> sets s1 = sets s"
  using assms
  by (auto simp: loadDependenciesThenSet_def Let_def
           split: pstate.splits option.splits if_splits)

lemma throwing_mapping:
  assumes "loadDependenciesThenSet stringify f stores reports stores_now force (Throws e) s = (r, s1)"
    and "calls s1 \<noteq> calls s"
  shows "r = Ret_throw e \<and> cell s1 = cell s \<and> sets s1 = sets s \<and> heap s1 = heap s"
  using assms
  by (auto simp: loadDependenciesThenSet_def Let_def
           split: pstate.splits option.splits if_splits)

lemma cycle_publishes_nothing:
  "cell (snd (loadDependenciesThenSet stringify f stores reports stores_now force mres s)) = cell s \<and>
   sets (snd (loadDependenciesThenSet stringify f stores reports stores_now force mres s)) = sets s"
  by (auto simp: loadDependenciesThenSet_def Let_def
           split: pstate.splits option.splits mapres.splits)

lemma quiet_step:
  assumes "\<not> publishing ev"
  shows "cell (step stringify s ev) = cell s \<and> sets (step stringify s ev) = sets s"
proof (cases ev)
  case (Resume f stores reports stores_now force mres)
  then show ?thesis by (simp add: cycle_publishes_nothing)
next
  case (Settled p r)
  with assms obtain e where "r = Inl e" by (cases r) auto
  with Settled show ?thesis by (simp add: mapping_settled_def)
next
  case (Set_cell v)
  with assms show ?thesis by simp
qed

lemma quiet_run:
  assumes "\<forall>ev \<in> set es. \<not> publishing ev"
  shows "cell (run stringify s es) = cell s \<and> sets (run stringify s es) = sets s"
  using assms
proof (induction es arbitrary: s)
  case Nil
  then show ?case by simp
next
  case (Cons ev es)
  with quiet_step [of ev stringify s] show ?case by simp
qed

text \<open>
  Claim C6. When the promise of the mapping function rejects with \<open>e\<close>, the promise the
  cycle returned (and that \<open>load()\<close> or \<open>reload()\<close> hands on) is rejected with \<open>e\<close> itself
  and stays so whatever happens later, and the rejection passes no value to
  \<open>thisStore.set\<close>: the cell and the list of published values are what they were. The
  cycle that invoked the mapping function published nothing either, and the same holds
  when the mapping function throws instead of rejecting. A store in which no computation
  has fulfilled and \<open>set\<close> was never called still holds its \<open>initial\<close> value.
\<close>

theorem mapping_failure_keeps_cell:
  "(p < length (heap t) \<and> heap t ! p = Pending \<longrightarrow>
      cell (mapping_settled p (Inl e) t) = cell t \<and>
      sets (mapping_settled p (Inl e) t) = sets t \<and>
      ret_state (Ret_promise p) (mapping_settled p (Inl e) t) = Rejected e \<and>
      (\<forall>fs. ret_state (Ret_promise p) (run stringify (mapping_settled p (Inl e) t) fs) = Rejected e)) \<and>
   (loadDependenciesThenSet stringify f stores reports stores_now force Returns_promise s = (r, s1) \<and>
    calls s1 \<noteq> calls s \<longrightarrow>
      r = Ret_promise (length (heap s)) \<and> length (heap s) < length (heap s1) \<and>
      heap s1 ! length (heap s) = Pending \<and> cell s1 = cell s \<and> sets s1 = sets s) \<and>
   (loadDependenciesThenSet stringify f stores reports stores_now force (Throws e) s = (r', s1') \<and>
    calls s1' \<noteq> calls s \<longrightarrow>
      ret_state r' s1' = Rejected e \<and> cell s1' = cell s \<and> sets s1' = sets s) \<and>
   ((\<forall>ev \<in> set es. \<not> publishing ev) \<longrightarrow>
      cell (run stringify (init_store initial) es) = initial \<and>
      sets (run stringify (init_store initial) es) = [])"
proof (intro conjI impI allI)
  assume h: "p < length (heap t) \<and> heap t ! p = Pending"
  then have 1: "p < length (heap t)" and 2: "heap t ! p = Pending" by simp_all
  from rejection_publishes_nothing [OF 1 2]
  show "cell (mapping_settled p (Inl e) t) = cell t"
    and "sets (mapping_settled p (Inl e) t) = sets t"
    and "ret_state (Ret_promise p) (mapping_settled p (Inl e) t) = Rejected e"
    and "\<And>fs. ret_state (Ret_promise p) (run stringify (mapping_settled p (Inl e) t) fs) = Rejected e"
    by blast+
next
  assume h: "loadDependenciesThenSet stringify f stores reports stores_now force Returns_promise s = (r, s1) \<and>
             calls s1 \<noteq> calls s"
  from invoked_promise_pending [of stringify f stores reports stores_now force s r s1] h
  show "r = Ret_promise (length (heap s))" and "length (heap s) < length (heap s1)"
    and "heap s1 ! length (heap s) = Pending" and "cell s1 = cell s" and "sets s1 = sets s"
    by blast+
next
  assume h: "loadDependenciesThenSet stringify f stores reports stores_now force (Throws e) s = (r', s1') \<and>
             calls s1' \<noteq> calls s"
  from throwing_mapping [of stringify f stores reports stores_now force e s r' s1'] h
  show "ret_state r' s1' = Rejected e" and "cell s1' = cell s" and "sets s1' = sets s"
    by (simp_all add: ret_state_def)
next
  assume h: "\<forall>ev \<in> set es. \<not> publishing ev"
  from quiet_run [OF h, of stringify "init_store initial"]
  show "cell (run stringify (init_store initial) es) = initial"
    and "sets (run stringify (init_store initial) es) = []"
    by (simp_all add: init_store_def)
qed

theorem mapping_failure_keeps_cell_witness:
  "(0 < length (heap (run JSON_stringify (init_store (Str ''initial'')) [readable_cycle LoadAll False])) \<and>
    heap (run JSON_stringify (init_store (Str ''initial'')) [readable_cycle LoadAll False]) ! 0 = Pending) \<and>
   cell (mapping_settled 0 (Inl (Error ''error''))
           (run JSON_stringify (init_store (Str ''initial'')) [readable_cycle LoadAll False])) =
     Str ''initial'' \<and>
   ret_state (Ret_promise 0) (mapping_settled 0 (Inl (Error ''error''))
           (run JSON_stringify (init_store (Str ''initial'')) [readable_cycle LoadAll False])) =
     Rejected (Error ''error'') \<and>
   list_all (\<lambda>ev. \<not> publishing ev)
     [readable_cycle LoadAll False, readable_cycle LoadAll False,
      Settled 0 (Inl (Error ''error''))] \<and>
   cell (run JSON_stringify (init_store (Str ''initial''))
          [readable_cycle LoadAll False, readable_cycle LoadAll False,
           Settled 0 (Inl (Error ''error''))]) = Str ''initial''"
proof -
  have main:
      "(0 < length (heap (run JSON_stringify (init_store (Str ''initial'')) [readable_cycle LoadAll False])) \<and>
      heap (run JSON_stringify (init_store (Str ''initial'')) [readable_cycle LoadAll False]) ! 0 = Pending) \<and>
     cell (mapping_settled 0 (Inl (Error ''error''))
             (run JSON_stringify (init_store (Str ''initial'')) [readable_cycle LoadAll False])) =
       Str ''initial'' \<and>
     ret_state (Ret_promise 0) (mapping_settled 0 (Inl (Error ''error''))
             (run JSON_stringify (init_store (Str ''initial'')) [readable_cycle LoadAll False])) =
       Rejected (Error ''error'') \<and>
     (\<forall>ev \<in> set [readable_cycle LoadAll False, readable_cycle LoadAll False,
                   Settled 0 (Inl (Error ''error''))]. \<not> publishing ev) \<and>
     cell (run JSON_stringify (init_store (Str ''initial''))
            [readable_cycle LoadAll False, readable_cycle LoadAll False,
             Settled 0 (Inl (Error ''error''))]) = Str ''initial''"
  proof -
    let ?t = "run JSON_stringify (init_store (Str ''initial'')) [readable_cycle LoadAll False]"
    let ?es = "[readable_cycle LoadAll False, readable_cycle LoadAll False,
                Settled 0 (Inl (Error ''error''))]"
    note inst = mapping_failure_keeps_cell
        [where p = 0 and t = ?t and e = "Error ''error''" and stringify = JSON_stringify
           and es = ?es and initial = "Str ''initial''"]
    have h: "0 < length (heap ?t) \<and> heap ?t ! 0 = Pending" by code_simp
    have q: "\<forall>ev \<in> set ?es. \<not> publishing ev" by (simp add: readable_cycle_def)
    have 0: "cell ?t = Str ''initial''" by code_simp
    from inst h have 1: "cell (mapping_settled 0 (Inl (Error ''error'')) ?t) = cell ?t"
      and 2: "ret_state (Ret_promise 0) (mapping_settled 0 (Inl (Error ''error'')) ?t) =
               Rejected (Error ''error'')"
      by blast+
    from inst q have 3: "cell (run JSON_stringify (init_store (Str ''initial'')) ?es) = Str ''initial''"
      by blast
    from h q 1 2 3 show ?thesis unfolding 0 by blast
  qed
  then show ?thesis unfolding list_all_iff .
qed

section \<open>A failure of the mapping function is memoised\<close>

lemma failed_current_step:
  assumes "unforced_with_key stringify k ev" and "loadedValuesString s = Some k"
    and "currentLoadPromise s = Some q" and "q < length (heap s)" and "heap s ! q = Rejected e'"
  shows "\<exists>q' e''. currentLoadPromise (step stringify s ev) = Some q' \<and>
                  q' < length (heap (step stringify s ev)) \<and>
                  heap (step stringify s ev) ! q' = Rejected e''"
proof (cases ev)
  case (Resume f stores reports stores_now force mres)
  with assms show ?thesis
    by (auto simp: loadDependenciesThenSet_def Let_def nth_append split: pstate.splits)
next
  case (Settled p r)
  from assms(5) have "heap s ! q \<noteq> Pending" by simp
  from step_keeps_settled [OF assms(4) this, of stringify ev] assms(3,5) Settled
  show ?thesis by simp
next
  case (Set_cell v)
  with assms show ?thesis by simp
qed

lemma failed_current_run:
  assumes "\<forall>ev \<in> set es. unforced_with_key stringify k ev" and "loadedValuesString s = Some k"
    and "currentLoadPromise s = Some q" and "q < length (heap s)" and "heap s ! q = Rejected e'"
  shows "\<exists>q' e''. currentLoadPromise (run stringify s es) = Some q' \<and>
                  q' < length (heap (run stringify s es)) \<and>
                  heap (run stringify s es) ! q' = Rejected e''"
  using assms
proof (induction es arbitrary: s q e')
  case Nil
  then show ?case by simp
next
  case (Cons ev es)
  let ?t = "step stringify s ev"
  from Cons.prems have a: "unforced_with_key stringify k ev"
    and r: "\<forall>ev \<in> set es. unforced_with_key stringify k ev" by simp_all
  from unforced_same_key_step [OF a Cons.prems(2)] have k: "loadedValuesString ?t = Some k" by simp
  from failed_current_step [OF a Cons.prems(2,3,4,5)]
  obtain q' e'' where "currentLoadPromise ?t = Some q'" "q' < length (heap ?t)"
    "heap ?t ! q' = Rejected e''" by blast
  from Cons.IH [OF r k this] show ?case by simp
qed

lemma current_kept_step:
  assumes "unforced_with_key stringify k ev" and "\<not> dependencies_rejected ev"
    and "loadedValuesString s = Some k"
  shows "currentLoadPromise (step stringify s ev) = currentLoadPromise s"
  using assms
  by (cases ev) (auto simp: loadDependenciesThenSet_def Let_def split: pstate.splits option.splits)

lemma current_kept_run:
  assumes "\<forall>ev \<in> set es. unforced_with_key stringify k ev"
    and "\<forall>ev \<in> set es. \<not> dependencies_rejected ev"
    and "loadedValuesString s = Some k"
  shows "currentLoadPromise (run stringify s es) = currentLoadPromise s"
  using assms
proof (induction es arbitrary: s)
  case Nil
  then show ?case by simp
next
  case (Cons ev es)
  let ?t = "step stringify s ev"
  from Cons.prems have a: "unforced_with_key stringify k ev" and b: "\<not> dependencies_rejected ev"
    by simp_all
  from unforced_same_key_step [OF a Cons.prems(3)] have k: "loadedValuesString ?t = Some k" by simp
  from Cons.IH [OF _ _ k] Cons.prems(1,2) current_kept_step [OF a b Cons.prems(3)]
  show ?case by simp
qed

text \<open>
  Claim C10, as amended. Take an unforced cycle whose dependencies loaded and which read a new key:
  it records the key, invokes the mapping function and makes the chained promise the
  \<open>currentLoadPromise\<close>. Let that promise reject with \<open>e\<close>. Then over any later run of
  unforced cycles that read the same key (promises settling and \<open>set\<close> calls in between),
  the mapping function is not invoked again and \<open>currentLoadPromise\<close> is always a rejected
  promise. As long as the dependencies of none of these cycles rejected, it is that same
  promise, rejected with \<open>e\<close>, and every such \<open>load()\<close> whose dependencies loaded returns it
  and changes nothing.
\<close>

theorem mapping_failure_is_memoised:
  "awaited reports (parentLoadFunction f stores) = Fulfilled pv \<and>
   Some (stringify (map get (getStoresArray stores_now))) \<noteq> loadedValuesString s \<and>
   (\<forall>ev \<in> set es. unforced_with_key stringify (stringify (map get (getStoresArray stores_now))) ev) \<longrightarrow>
     (case loadDependenciesThenSet stringify f stores reports stores_now False Returns_promise s of
        (r, s1) \<Rightarrow>
          r = Ret_promise (length (heap s)) \<and>
          ret_state r (mapping_settled (length (heap s)) (Inl e) s1) = Rejected e \<and>
          calls (run stringify (mapping_settled (length (heap s)) (Inl e) s1) es) = calls s1 \<and>
          (\<exists>q e'. currentLoadPromise (run stringify (mapping_settled (length (heap s)) (Inl e) s1) es) =
                     Some q \<and>
                  ret_state (Ret_promise q)
                    (run stringify (mapping_settled (length (heap s)) (Inl e) s1) es) = Rejected e') \<and>
          ((\<forall>ev \<in> set es. \<not> dependencies_rejected ev) \<longrightarrow>
             currentLoadPromise (run stringify (mapping_settled (length (heap s)) (Inl e) s1) es) =
               Some (length (heap s)) \<and>
             ret_state r (run stringify (mapping_settled (length (heap s)) (Inl e) s1) es) =
               Rejected e \<and>
             (\<forall>f' stores' reports' now' pv' mres'.
                awaited reports' (parentLoadFunction f' stores') =
                  Fulfilled pv' \<and>
                stringify (map get (getStoresArray now')) =
                  stringify (map get (getStoresArray stores_now)) \<longrightarrow>
                loadDependenciesThenSet stringify f' stores' reports' now' False mres'
                    (run stringify (mapping_settled (length (heap s)) (Inl e) s1) es) =
                  (r, run stringify (mapping_settled (length (heap s)) (Inl e) s1) es))))"
proof (intro impI, elim conjE)
  let ?k = "stringify (map get (getStoresArray stores_now))"
  let ?p = "length (heap s)"
  assume a: "awaited reports (parentLoadFunction f stores) = Fulfilled pv"
    and n: "Some ?k \<noteq> loadedValuesString s"
    and u: "\<forall>ev \<in> set es. unforced_with_key stringify ?k ev"
  obtain r s1 where c: "loadDependenciesThenSet stringify f stores reports stores_now False
                          Returns_promise s = (r, s1)"
    by (cases "loadDependenciesThenSet stringify f stores reports stores_now False Returns_promise s")
  from n have n': "False \<or> Some ?k \<noteq> loadedValuesString s" by simp
  from new_computation [where stringify = stringify and force = False, OF a n'] c
  have r: "r = Ret_promise ?p" and cur: "currentLoadPromise s1 = Some ?p"
    and len: "?p < length (heap s1)" and pen: "heap s1 ! ?p = Pending"
    and key: "loadedValuesString s1 = Some ?k"
    by auto
  let ?t = "mapping_settled ?p (Inl e) s1"
  let ?u = "run stringify ?t es"
  have t: "currentLoadPromise ?t = Some ?p" "?p < length (heap ?t)" "heap ?t ! ?p = Rejected e"
    "loadedValuesString ?t = Some ?k" "calls ?t = calls s1"
    using cur len pen key by (simp_all add: mapping_settled_def)
  have 1: "ret_state r ?t = Rejected e"
    using r t by (simp add: ret_state_def)
  have 2: "calls ?u = calls s1" and ku: "loadedValuesString ?u = Some ?k"
    using same_key_run [OF u t(4)] t(5) by simp_all
  have 3: "\<exists>q e'. currentLoadPromise ?u = Some q \<and> ret_state (Ret_promise q) ?u = Rejected e'"
    using failed_current_run [OF u t(4) t(1) t(2) t(3)] by (auto simp: ret_state_def)
  have 4: "currentLoadPromise ?u = Some ?p \<and> ret_state r ?u = Rejected e \<and>
           (\<forall>f' stores' reports' now' pv' mres'.
                awaited reports' (parentLoadFunction f' stores') =
                  Fulfilled pv' \<and>
                stringify (map get (getStoresArray now')) = ?k \<longrightarrow>
                loadDependenciesThenSet stringify f' stores' reports' now' False mres' ?u = (r, ?u))"
    if d: "\<forall>ev \<in> set es. \<not> dependencies_rejected ev"
  proof -
    have cu: "currentLoadPromise ?u = Some ?p"
      using current_kept_run [OF u d t(4)] t(1) by simp
    have "heap ?t ! ?p \<noteq> Pending" using t(3) by simp
    from run_keeps_settled [OF t(2) this, of stringify es] t(3) r
    have ru: "ret_state r ?u = Rejected e" by (simp add: ret_state_def)
    have "loadDependenciesThenSet stringify f' stores' reports' now' False mres' ?u = (r, ?u)"
      if "awaited reports' (parentLoadFunction f' stores') = Fulfilled pv'"
         "stringify (map get (getStoresArray now')) = ?k"
      for f' stores' reports' now' pv' mres'
    proof -
      have "Some (stringify (map get (getStoresArray now'))) = loadedValuesString ?u"
        using that(2) ku by simp
      from dedup_returns_current [where stringify = stringify and mres = mres', OF that(1) this]
      show ?thesis using cu r by simp
    qed
    with cu ru show ?thesis by blast
  qed
  show "case loadDependenciesThenSet stringify f stores reports stores_now False Returns_promise s of
        (r, s1) \<Rightarrow>
          r = Ret_promise (length (heap s)) \<and>
          ret_state r (mapping_settled (length (heap s)) (Inl e) s1) = Rejected e \<and>
          calls (run stringify (mapping_settled (length (heap s)) (Inl e) s1) es) = calls s1 \<and>
          (\<exists>q e'. currentLoadPromise (run stringify (mapping_settled (length (heap s)) (Inl e) s1) es) =
                     Some q \<and>
                  ret_state (Ret_promise q)
                    (run stringify (mapping_settled (length (heap s)) (Inl e) s1) es) = Rejected e') \<and>
          ((\<forall>ev \<in> set es. \<not> dependencies_rejected ev) \<longrightarrow>
             currentLoadPromise (run stringify (mapping_settled (length (heap s)) (Inl e) s1) es) =
               Some (length (heap s)) \<and>
             ret_state r (run stringify (mapping_settled (length (heap s)) (Inl e) s1) es) =
               Rejected e \<and>
             (\<forall>f' stores' reports' now' pv' mres'.
                awaited reports' (parentLoadFunction f' stores') =
                  Fulfilled pv' \<and>
                stringify (map get (getStoresArray now')) =
                  stringify (map get (getStoresArray stores_now)) \<longrightarrow>
                loadDependenciesThenSet stringify f' stores' reports' now' False mres'
                    (run stringify (mapping_settled (length (heap s)) (Inl e) s1) es) =
                  (r, run stringify (mapping_settled (length (heap s)) (Inl e) s1) es)))"
    unfolding c prod.case
    using r 1 2 3 4 by blast
qed

theorem mapping_failure_is_memoised_witness:
  "awaited [] (parentLoadFunction LoadAll (Many [])) =
     Fulfilled (Arr []) \<and>
   Some (JSON_stringify (map get (getStoresArray (Many [])))) \<noteq>
     loadedValuesString (init_store (Str ''initial'')) \<and>
   list_all (unforced_with_key JSON_stringify (JSON_stringify (map get (getStoresArray (Many [])))))
     [readable_cycle LoadAll False, readable_cycle LoadAll False] \<and>
   list_all (\<lambda>ev. \<not> dependencies_rejected ev)
     [readable_cycle LoadAll False, readable_cycle LoadAll False] \<and>
   (case loadDependenciesThenSet JSON_stringify LoadAll (Many []) [] (Many []) False
           Returns_promise (init_store (Str ''initial'')) of
      (r, s1) \<Rightarrow>
        r = Ret_promise 0 \<and>
        calls (run JSON_stringify (mapping_settled 0 (Inl (Error ''error'')) s1)
                 [readable_cycle LoadAll False, readable_cycle LoadAll False]) = calls s1 \<and>
        currentLoadPromise (run JSON_stringify (mapping_settled 0 (Inl (Error ''error'')) s1)
                 [readable_cycle LoadAll False, readable_cycle LoadAll False]) = Some 0 \<and>
        ret_state r (run JSON_stringify (mapping_settled 0 (Inl (Error ''error'')) s1)
                 [readable_cycle LoadAll False, readable_cycle LoadAll False]) =
          Rejected (Error ''error''))"
proof -
  have main:
      "awaited [] (parentLoadFunction LoadAll (Many [])) =
       Fulfilled (Arr []) \<and>
     Some (JSON_stringify (map get (getStoresArray (Many [])))) \<noteq>
       loadedValuesString (init_store (Str ''initial'')) \<and>
     (\<forall>ev \<in> set [readable_cycle LoadAll False, readable_cycle LoadAll False].
        unforced_with_key JSON_stringify (JSON_stringify (map get (getStoresArray (Many [])))) ev) \<and>
     (\<forall>ev \<in> set [readable_cycle LoadAll False, readable_cycle LoadAll False].
        \<not> dependencies_rejected ev) \<and>
     (case loadDependenciesThenSet JSON_stringify LoadAll (Many []) [] (Many []) False
             Returns_promise (init_store (Str ''initial'')) of
        (r, s1) \<Rightarrow>
          r = Ret_promise 0 \<and>
          calls (run JSON_stringify (mapping_settled 0 (Inl (Error ''error'')) s1)
                   [readable_cycle LoadAll False, readable_cycle LoadAll False]) = calls s1 \<and>
          currentLoadPromise (run JSON_stringify (mapping_settled 0 (Inl (Error ''error'')) s1)
                   [readable_cycle LoadAll False, readable_cycle LoadAll False]) = Some 0 \<and>
          ret_state r (run JSON_stringify (mapping_settled 0 (Inl (Error ''error'')) s1)
                   [readable_cycle LoadAll False, readable_cycle LoadAll False]) =
            Rejected (Error ''error''))"
  proof -
    let ?s = "init_store (Str ''initial'')"
    let ?es = "[readable_cycle LoadAll False, readable_cycle LoadAll False]"
    have a: "awaited [] (parentLoadFunction LoadAll (Many [])) =
               Fulfilled (Arr [])"
      by code_simp
    have n: "Some (JSON_stringify (map get (getStoresArray (Many [])))) \<noteq> loadedValuesString ?s"
      by (simp add: init_store_def)
    have u: "\<forall>ev \<in> set ?es.
               unforced_with_key JSON_stringify (JSON_stringify (map get (getStoresArray (Many [])))) ev"
      by (simp add: readable_cycle_def split: pstate.splits)
    have d: "\<forall>ev \<in> set ?es. \<not> dependencies_rejected ev"
      by (simp add: readable_cycle_def loadAll_def Promise_all_def aggregate_state_def)
    have l: "length (heap ?s) = 0" by (simp add: init_store_def)
    obtain r s1 where c: "loadDependenciesThenSet JSON_stringify LoadAll (Many []) [] (Many []) False
                            Returns_promise ?s = (r, s1)"
      by (cases "loadDependenciesThenSet JSON_stringify LoadAll (Many []) [] (Many []) False
                   Returns_promise ?s")
    from mapping_failure_is_memoised
           [where stringify = JSON_stringify and f = LoadAll and stores = "Many []" and reports = "[]"
              and stores_now = "Many []" and s = ?s and es = ?es and pv = "Arr []"
              and e = "Error ''error''"] a n u d
    have "r = Ret_promise 0 \<and>
          calls (run JSON_stringify (mapping_settled 0 (Inl (Error ''error'')) s1) ?es) = calls s1 \<and>
          currentLoadPromise (run JSON_stringify (mapping_settled 0 (Inl (Error ''error'')) s1) ?es) =
            Some 0 \<and>
          ret_state r (run JSON_stringify (mapping_settled 0 (Inl (Error ''error'')) s1) ?es) =
            Rejected (Error ''error'')"
      unfolding c prod.case l by blast
    with a n u d show ?thesis
      unfolding c prod.case by blast
  qed
  then show ?thesis unfolding list_all_iff .
qed

text \<open>
  The claim as stated fails in \<open>flaky_run\<close>: the mapping function rejected for the key of
  \<open>v\<close> (promise 0), then a \<open>load()\<close> found its dependency rejecting and made that rejected
  aggregate the \<open>currentLoadPromise\<close> (promise 1) without touching the key. The next
  \<open>load()\<close>, whose dependency loads and reads the same \<open>v\<close>, does not invoke the mapping
  function, but what it returns is promise 1 with the dependency's error, not promise 0.
\<close>

theorem later_dependency_failure_replaces_promise:
  "ret_state (Ret_promise 0) (run JSON_stringify (init_store Undefined) flaky_run) =
     Rejected (Error ''mapping'') \<and>
   loadedValuesString (run JSON_stringify (init_store Undefined) flaky_run) =
     Some (JSON_stringify [Str ''v'']) \<and>
   fst (loadDependenciesThenSet JSON_stringify LoadAll (Single flakyParent) [(0, Inr (Str ''v''))]
          (Single flakyParent) False Returns_promise
          (run JSON_stringify (init_store Undefined) flaky_run)) = Ret_promise 1 \<and>
   ret_state (Ret_promise 1)
     (snd (loadDependenciesThenSet JSON_stringify LoadAll (Single flakyParent)
             [(0, Inr (Str ''v''))] (Single flakyParent) False Returns_promise
             (run JSON_stringify (init_store Undefined) flaky_run))) =
     Rejected (Error ''parent'') \<and>
   calls (snd (loadDependenciesThenSet JSON_stringify LoadAll (Single flakyParent)
             [(0, Inr (Str ''v''))] (Single flakyParent) False Returns_promise
             (run JSON_stringify (init_store Undefined) flaky_run))) = [Str ''v'']"
  by code_simp

section \<open>Failures of the dependencies\<close>

lemma parent_load_rejected:
  assumes "i < length (getStoresArray stores)"
    and "case f of LoadAll \<Rightarrow> isLoadable (getStoresArray stores ! i)
                 | ReloadAll \<Rightarrow> isReloadable (getStoresArray stores ! i) \<or>
                                isLoadable (getStoresArray stores ! i)"
    and "\<forall>ev \<in> set pre. \<exists>j v. ev = (j, Inr v) \<and> j \<noteq> i"
  shows "awaited (pre @ (i, Inl e) # post) (parentLoadFunction f stores) =
           Rejected e"
proof (cases f)
  case LoadAll
  let ?es = "map (\<lambda>s. case load s of Some m \<Rightarrow> Promised m | None \<Rightarrow> Direct (get s))
                 (getStoresArray stores)"
  have "\<exists>m. ?es ! i = Promised m"
    using assms(1,2) LoadAll by (auto simp: isLoadable_def)
  then obtain m where m: "?es ! i = Promised m" ..
  have "awaited (pre @ (i, Inl e) # post) (Promise_all ?es) = Rejected e"
    using assms(1) m assms(3) by (intro Promise_all_rejected) simp_all
  then show ?thesis
    by (simp only: LoadAll parentLoadFunction.simps loadAll_def)
next
  case ReloadAll
  let ?es = "map (\<lambda>s. case reload s of Some m \<Rightarrow> Promised m
                       | None \<Rightarrow> (case load s of Some m \<Rightarrow> Promised m | None \<Rightarrow> Direct (get s)))
                 (getStoresArray stores)"
  have "\<exists>m. ?es ! i = Promised m"
    using assms(1,2) ReloadAll
    by (cases "reload (getStoresArray stores ! i)"; cases "load (getStoresArray stores ! i)")
       (simp_all add: isLoadable_def isReloadable_def)
  then obtain m where m: "?es ! i = Promised m" ..
  have "awaited (pre @ (i, Inl e) # post) (Promise_all ?es) = Rejected e"
    using assms(1) m assms(3) by (intro Promise_all_rejected) simp_all
  then show ?thesis
    by (simp only: ReloadAll parentLoadFunction.simps reloadAll_def)
qed

lemma cycle_dependencies_rejected:
  assumes "awaited reports (parentLoadFunction f stores) = Rejected e"
  shows "loadDependenciesThenSet stringify f stores reports stores_now force mres s =
           (Ret_promise (length (heap s)),
            s\<lparr>heap := heap s @ [Rejected e], currentLoadPromise := Some (length (heap s))\<rparr>)"
  using assms by (simp add: loadDependenciesThenSet_def)

lemma rejected_cycle_facts:
  assumes "awaited reports (parentLoadFunction f stores) = Rejected e"
    and "loadDependenciesThenSet stringify f stores reports stores_now force mres s = (r, s')"
  shows "ret_state r s' = Rejected e \<and> calls s' = calls s \<and> cell s' = cell s \<and> sets s' = sets s \<and>
         ret_state r (run stringify s' fs) = Rejected e"
proof -
  from cycle_dependencies_rejected [OF assms(1), of stringify stores_now force mres s] assms(2)
  have r: "r = Ret_promise (length (heap s))"
    and s': "s' = s\<lparr>heap := heap s @ [Rejected e], currentLoadPromise := Some (length (heap s))\<rparr>"
    by simp_all
  have h: "length (heap s) < length (heap s')" "heap s' ! length (heap s) = Rejected e"
    using s' by simp_all
  then have "heap s' ! length (heap s) \<noteq> Pending" by simp
  from run_keeps_settled [OF h(1) this, of stringify fs] h r s'
  show ?thesis by (simp add: ret_state_def)
qed

lemma chain_store_loadable:
  "isLoadable leaf \<Longrightarrow> isLoadable (chain_store leaf ls)"
  by (cases ls) (simp_all add: isLoadable_def asyncDerived_def asyncWritable_def Let_def)

lemma single_rejected:
  "isLoadable parent \<Longrightarrow>
   awaited (settlement_report (Rejected e))
      (parentLoadFunction LoadAll (Single parent)) = Rejected e"
  using parent_load_rejected [of 0 "Single parent" LoadAll "[]" e "[]"] by simp

lemma chain_rejects:
  assumes "isLoadable leaf"
  shows "fst (load_chain stringify leaf (Rejected e) ls) = Rejected e \<and>
         map (\<lambda>l. calls (lv_state l)) (snd (load_chain stringify leaf (Rejected e) ls)) =
           map (\<lambda>l. calls (lv_state l)) ls \<and>
         map (\<lambda>l. cell (lv_state l)) (snd (load_chain stringify leaf (Rejected e) ls)) =
           map (\<lambda>l. cell (lv_state l)) ls"
proof (induction ls)
  case Nil
  show ?case by simp
next
  case (Cons l ls)
  let ?parent = "chain_store leaf ls"
  obtain pl ls' where p: "load_chain stringify leaf (Rejected e) ls = (pl, ls')"
    by (cases "load_chain stringify leaf (Rejected e) ls")
  with Cons.IH have pl: "pl = Rejected e"
    and c: "map (\<lambda>l. calls (lv_state l)) ls' = map (\<lambda>l. calls (lv_state l)) ls"
    and d: "map (\<lambda>l. cell (lv_state l)) ls' = map (\<lambda>l. cell (lv_state l)) ls"
    by simp_all
  have lo: "isLoadable ?parent" using assms by (rule chain_store_loadable)
  have agg: "awaited (settlement_report (Rejected e))
               (parentLoadFunction LoadAll (Single ?parent)) = Rejected e"
    using lo by (rule single_rejected)
  let ?s = "lv_state l"
  let ?s' = "?s\<lparr>heap := heap ?s @ [Rejected e], currentLoadPromise := Some (length (heap ?s))\<rparr>"
  have cyc: "loadDependenciesThenSet stringify LoadAll (Single ?parent)
               (settlement_report (Rejected e)) (Single (chain_store leaf ls')) False (lv_mres l) ?s =
             (Ret_promise (length (heap ?s)), ?s')"
    using cycle_dependencies_rejected [OF agg] .
  have ms: "mapping_settled (length (heap ?s)) out ?s' = ?s'" for out
    by (simp add: mapping_settled_def)
  have "load_chain stringify leaf (Rejected e) (l # ls) = (Rejected e, l\<lparr>lv_state := ?s'\<rparr> # ls')"
    using lo p pl cyc ms
    by (simp add: ret_state_def split: option.splits)
  with c d show ?case by simp
qed

text \<open>
  Claim C5. When the load or reload of a dependency rejects with \<open>e\<close> before any other
  dependency rejects, the cycle (forced or not, through \<open>loadAll\<close> or \<open>reloadAll\<close>) returns
  a promise rejected with \<open>e\<close> itself, which stays so; the mapping function is not
  invoked and nothing is published. Through a chain of \<open>asyncDerived\<close> stores of any
  length the error of the innermost \<open>load()\<close> arrives as it is at the outermost one, and
  no mapping function along the chain is invoked.
\<close>

theorem dependency_failure_propagates:
  "(i < length (getStoresArray stores) \<and>
    (case f of LoadAll \<Rightarrow> isLoadable (getStoresArray stores ! i)
             | ReloadAll \<Rightarrow> isReloadable (getStoresArray stores ! i) \<or>
                            isLoadable (getStoresArray stores ! i)) \<and>
    (\<forall>ev \<in> set pre. \<exists>j v. ev = (j, Inr v) \<and> j \<noteq> i) \<longrightarrow>
      (case loadDependenciesThenSet stringify f stores (pre @ (i, Inl e) # post) stores_now force
              mres s of
         (r, s') \<Rightarrow>
           ret_state r s' = Rejected e \<and> calls s' = calls s \<and> cell s' = cell s \<and>
           sets s' = sets s \<and> (\<forall>fs. ret_state r (run stringify s' fs) = Rejected e))) \<and>
   (isLoadable leaf \<longrightarrow>
      fst (load_chain stringify leaf (Rejected e) ls) = Rejected e \<and>
      map (\<lambda>l. calls (lv_state l)) (snd (load_chain stringify leaf (Rejected e) ls)) =
        map (\<lambda>l. calls (lv_state l)) ls \<and>
      map (\<lambda>l. cell (lv_state l)) (snd (load_chain stringify leaf (Rejected e) ls)) =
        map (\<lambda>l. cell (lv_state l)) ls)"
proof (intro conjI impI)
  assume h: "i < length (getStoresArray stores) \<and>
    (case f of LoadAll \<Rightarrow> isLoadable (getStoresArray stores ! i)
             | ReloadAll \<Rightarrow> isReloadable (getStoresArray stores ! i) \<or>
                            isLoadable (getStoresArray stores ! i)) \<and>
    (\<forall>ev \<in> set pre. \<exists>j v. ev = (j, Inr v) \<and> j \<noteq> i)"
  then have agg: "awaited (pre @ (i, Inl e) # post)
                    (parentLoadFunction f stores) = Rejected e"
    by (intro parent_load_rejected) simp_all
  obtain r s' where c: "loadDependenciesThenSet stringify f stores (pre @ (i, Inl e) # post)
                          stores_now force mres s = (r, s')"
    by (cases "loadDependenciesThenSet stringify f stores (pre @ (i, Inl e) # post) stores_now
                 force mres s")
  from rejected_cycle_facts [OF agg c]
  show "case loadDependenciesThenSet stringify f stores (pre @ (i, Inl e) # post) stores_now force
              mres s of
         (r, s') \<Rightarrow>
           ret_state r s' = Rejected e \<and> calls s' = calls s \<and> cell s' = cell s \<and>
           sets s' = sets s \<and> (\<forall>fs. ret_state r (run stringify s' fs) = Rejected e)"
    unfolding c prod.case by blast
next
  assume "isLoadable leaf"
  from chain_rejects [OF this, of stringify e ls]
  show "fst (load_chain stringify leaf (Rejected e) ls) = Rejected e"
    and "map (\<lambda>l. calls (lv_state l)) (snd (load_chain stringify leaf (Rejected e) ls)) =
        map (\<lambda>l. calls (lv_state l)) ls"
    and "map (\<lambda>l. cell (lv_state l)) (snd (load_chain stringify leaf (Rejected e) ls)) =
        map (\<lambda>l. cell (lv_state l)) ls"
    by blast+
qed

theorem dependency_failure_propagates_witness:
  "(1 < length (getStoresArray (Many [myLoadable, badLoadable])) \<and>
    (case LoadAll of
       LoadAll \<Rightarrow> isLoadable (getStoresArray (Many [myLoadable, badLoadable]) ! 1)
     | ReloadAll \<Rightarrow> isReloadable (getStoresArray (Many [myLoadable, badLoadable]) ! 1) \<or>
                    isLoadable (getStoresArray (Many [myLoadable, badLoadable]) ! 1)) \<and>
    list_all (\<lambda>ev. \<exists>j v. ev = (j, Inr v) \<and> j \<noteq> 1) [(0::nat, Inr (Str ''B'') :: err + val)]) \<and>
   (case loadDependenciesThenSet JSON_stringify LoadAll (Many [myLoadable, badLoadable])
           ([(0, Inr (Str ''B''))] @ (1, Inl (Error ''E'')) # [])
           (Many [myLoadable, badLoadable]) False Returns_promise (init_store Undefined) of
      (r, s') \<Rightarrow> ret_state r s' = Rejected (Error ''E'') \<and> calls s' = calls (init_store Undefined)) \<and>
   isLoadable badLoadable \<and>
   fst (load_chain JSON_stringify badLoadable (Rejected (Error ''E''))
          [fresh_level, fresh_level, fresh_level]) = Rejected (Error ''E'') \<and>
   map (\<lambda>l. calls (lv_state l))
       (snd (load_chain JSON_stringify badLoadable (Rejected (Error ''E''))
               [fresh_level, fresh_level, fresh_level])) = [[], [], []]"
proof -
  have main:
      "(1 < length (getStoresArray (Many [myLoadable, badLoadable])) \<and>
      (case LoadAll of
         LoadAll \<Rightarrow> isLoadable (getStoresArray (Many [myLoadable, badLoadable]) ! 1)
       | ReloadAll \<Rightarrow> isReloadable (getStoresArray (Many [myLoadable, badLoadable]) ! 1) \<or>
                      isLoadable (getStoresArray (Many [myLoadable, badLoadable]) ! 1)) \<and>
      (\<forall>ev \<in> set [(0::nat, Inr (Str ''B'') :: err + val)]. \<exists>j v. ev = (j, Inr v) \<and> j \<noteq> 1)) \<and>
     (case loadDependenciesThenSet JSON_stringify LoadAll (Many [myLoadable, badLoadable])
             ([(0, Inr (Str ''B''))] @ (1, Inl (Error ''E'')) # [])
             (Many [myLoadable, badLoadable]) False Returns_promise (init_store Undefined) of
        (r, s') \<Rightarrow> ret_state r s' = Rejected (Error ''E'') \<and> calls s' = calls (init_store Undefined)) \<and>
     isLoadable badLoadable \<and>
     fst (load_chain JSON_stringify badLoadable (Rejected (Error ''E''))
            [fresh_level, fresh_level, fresh_level]) = Rejected (Error ''E'') \<and>
     map (\<lambda>l. calls (lv_state l))
         (snd (load_chain JSON_stringify badLoadable (Rejected (Error ''E''))
                 [fresh_level, fresh_level, fresh_level])) = [[], [], []]"
  proof -
    let ?ss = "Many [myLoadable, badLoadable]"
    note inst = dependency_failure_propagates
        [where i = 1 and stores = ?ss and f = LoadAll and pre = "[(0, Inr (Str ''B''))]"
           and stringify = JSON_stringify and e = "Error ''E''" and post = "[]"
           and stores_now = ?ss and force = False and mres = Returns_promise
           and s = "init_store Undefined" and leaf = badLoadable
           and ls = "[fresh_level, fresh_level, fresh_level]"]
    have h: "1 < length (getStoresArray ?ss) \<and>
      (case LoadAll of
         LoadAll \<Rightarrow> isLoadable (getStoresArray ?ss ! 1)
       | ReloadAll \<Rightarrow> isReloadable (getStoresArray ?ss ! 1) \<or> isLoadable (getStoresArray ?ss ! 1)) \<and>
      (\<forall>ev \<in> set [(0::nat, Inr (Str ''B'') :: err + val)]. \<exists>j v. ev = (j, Inr v) \<and> j \<noteq> 1)"
      by (simp add: isLoadable_def badLoadable_def)
    have b: "isLoadable badLoadable" by (simp add: isLoadable_def badLoadable_def)
    obtain r s' where c: "loadDependenciesThenSet JSON_stringify LoadAll ?ss
             ([(0, Inr (Str ''B''))] @ (1, Inl (Error ''E'')) # []) ?ss False Returns_promise
             (init_store Undefined) = (r, s')"
      by (cases "loadDependenciesThenSet JSON_stringify LoadAll ?ss
             ([(0, Inr (Str ''B''))] @ (1, Inl (Error ''E'')) # []) ?ss False Returns_promise
             (init_store Undefined)")
    from inst h have 1: "ret_state r s' = Rejected (Error ''E'') \<and> calls s' = calls (init_store Undefined)"
      unfolding c prod.case by blast
    from inst b have 2: "fst (load_chain JSON_stringify badLoadable (Rejected (Error ''E''))
            [fresh_level, fresh_level, fresh_level]) = Rejected (Error ''E'')"
      and 3: "map (\<lambda>l. calls (lv_state l))
         (snd (load_chain JSON_stringify badLoadable (Rejected (Error ''E''))
                 [fresh_level, fresh_level, fresh_level])) =
         map (\<lambda>l. calls (lv_state l)) [fresh_level, fresh_level, fresh_level]"
      by blast+
    have 4: "map (\<lambda>l. calls (lv_state l)) [fresh_level, fresh_level, fresh_level] = [[], [], []]"
      by (simp add: fresh_level_def init_store_def)
    from 3 4 have 5: "map (\<lambda>l. calls (lv_state l))
         (snd (load_chain JSON_stringify badLoadable (Rejected (Error ''E''))
                 [fresh_level, fresh_level, fresh_level])) = [[], [], []]"
      by (rule trans)
    have g: "case loadDependenciesThenSet JSON_stringify LoadAll ?ss
             ([(0, Inr (Str ''B''))] @ (1, Inl (Error ''E'')) # []) ?ss False Returns_promise
             (init_store Undefined) of
        (r, s') \<Rightarrow> ret_state r s' = Rejected (Error ''E'') \<and> calls s' = calls (init_store Undefined)"
      unfolding c prod.case by (rule 1)
    show ?thesis
      by (rule conjI [OF h conjI [OF g conjI [OF b conjI [OF 2 5]]]])
  qed
  then show ?thesis unfolding list_all_iff .
qed

section \<open>Which operations a store exposes\<close>

lemma anyReloadable_iff: "anyReloadable ss \<longleftrightarrow> (\<exists>s \<in> set (getStoresArray ss). isReloadable s)"
  by (simp add: anyReloadable_def list_ex_iff)

lemma anyLoadable_iff: "anyLoadable ss \<longleftrightarrow> (\<exists>s \<in> set (getStoresArray ss). isLoadable s)"
  by (simp add: anyLoadable_def list_ex_iff)

text \<open>
  Claim C7, as amended. A store made by \<open>asyncWritable\<close>, and so one made by the
  \<open>asyncDerived\<close> and \<open>asyncReadable\<close> that are built on it, has a \<open>reload\<close> property exactly
  when it was constructed reloadable or one of its dependencies has a \<open>reload\<close> property
  (\<open>asyncReadable\<close> has no dependencies); when present, \<open>reload\<close> runs a cycle through
  \<open>reloadAll\<close> that is forced exactly when the store is reloadable. The stand-alone
  \<open>asyncDerived\<close> of the second copy of the module, and the \<open>asyncReadable\<close> built on it,
  always have a \<open>reload\<close> property, of the same behaviour.
\<close>

theorem reload_is_exposed:
  "(isReloadable (asyncWritable stores reloadable initial) \<longleftrightarrow>
      reloadable \<or> (\<exists>s \<in> set (getStoresArray stores). isReloadable s)) \<and>
   (isReloadable (asyncDerived stores reloadable initial) \<longleftrightarrow>
      reloadable \<or> (\<exists>s \<in> set (getStoresArray stores). isReloadable s)) \<and>
   (isReloadable (asyncReadable initial reloadable) \<longleftrightarrow> reloadable) \<and>
   (\<forall>m. reload (asyncWritable stores reloadable initial) = Some m \<or>
        reload (asyncDerived stores reloadable initial) = Some m \<or>
        reload (asyncReadable initial reloadable) = Some m \<longrightarrow>
        m = Cycle ReloadAll reloadable) \<and>
   reload (asyncDerived_standalone stores reloadable initial) = Some (Cycle ReloadAll reloadable) \<and>
   reload (asyncReadable_standalone initial reloadable) = Some (Cycle ReloadAll reloadable)"
  by (auto simp: isReloadable_def asyncWritable_def asyncDerived_def asyncReadable_def
                 asyncDerived_standalone_def asyncReadable_standalone_def anyReloadable_iff Let_def
           split: if_splits)

text \<open>
  The claim as stated fails for the stand-alone \<open>asyncDerived\<close>: constructed without the
  reloadable flag over a plain store, or as an \<open>asyncReadable\<close> with no dependency at all,
  the store has a \<open>reload\<close> property (an unforced cycle through \<open>reloadAll\<close>).
\<close>

theorem standalone_store_has_reload:
  "\<not> anyReloadable (Single (writableParent (Str ''writable''))) \<and>
   reload (asyncDerived_standalone (Single (writableParent (Str ''writable''))) False Undefined) =
     Some (Cycle ReloadAll False) \<and>
   reload (asyncReadable_standalone Undefined False) = Some (Cycle ReloadAll False)"
  by code_simp

theorem reload_is_exposed_witness:
  "isReloadable (asyncDerived (Many [writableParent (Str ''writable''), myLoadable, myReloadable])
      False Undefined) \<and>
   \<not> isReloadable (asyncDerived (Single (writableParent (Str ''writable''))) False Undefined) \<and>
   \<not> isReloadable (asyncReadable Undefined False) \<and>
   isReloadable (asyncReadable Undefined True) \<and>
   reload (asyncReadable Undefined True) = Some (Cycle ReloadAll True)"
proof -
  have 1: "\<exists>s \<in> set (getStoresArray (Many [writableParent (Str ''writable''), myLoadable, myReloadable])).
             isReloadable s"
    by (simp add: isReloadable_def myReloadable_def)
  have 2: "\<not> (\<exists>s \<in> set (getStoresArray (Single (writableParent (Str ''writable'')))). isReloadable s)"
    by (simp add: isReloadable_def writableParent_def)
  have 3: "reload (asyncReadable Undefined True) = Some (Cycle ReloadAll True)"
    using reload_is_exposed [of "Many []" True Undefined]
    by (auto simp: isReloadable_def)
  from reload_is_exposed [of "Many [writableParent (Str ''writable''), myLoadable, myReloadable]"
         False Undefined] 1
       reload_is_exposed [of "Single (writableParent (Str ''writable''))" False Undefined] 2
       reload_is_exposed [of "Many []" True Undefined] 3
  show ?thesis by blast
qed

section \<open>The synchronous derived store\<close>

lemma parent_load_pending:
  assumes "i < length (getStoresArray stores)"
    and "case f of LoadAll \<Rightarrow> isLoadable (getStoresArray stores ! i)
                 | ReloadAll \<Rightarrow> isReloadable (getStoresArray stores ! i) \<or>
                                isLoadable (getStoresArray stores ! i)"
    and "\<forall>ev \<in> set evs. \<exists>j v. ev = (j, Inr v) \<and> j \<noteq> i"
  shows "awaited evs (parentLoadFunction f stores) = Pending"
proof (cases f)
  case LoadAll
  let ?es = "map (\<lambda>s. case load s of Some m \<Rightarrow> Promised m | None \<Rightarrow> Direct (get s))
                 (getStoresArray stores)"
  have "\<exists>m. ?es ! i = Promised m"
    using assms(1,2) LoadAll by (auto simp: isLoadable_def)
  then obtain m where m: "?es ! i = Promised m" ..
  have "awaited evs (Promise_all ?es) = Pending"
    using assms(1) m assms(3) by (intro Promise_all_pending) simp_all
  then show ?thesis
    by (simp only: LoadAll parentLoadFunction.simps loadAll_def)
next
  case ReloadAll
  let ?es = "map (\<lambda>s. case reload s of Some m \<Rightarrow> Promised m
                       | None \<Rightarrow> (case load s of Some m \<Rightarrow> Promised m | None \<Rightarrow> Direct (get s)))
                 (getStoresArray stores)"
  have "\<exists>m. ?es ! i = Promised m"
    using assms(1,2) ReloadAll
    by (cases "reload (getStoresArray stores ! i)"; cases "load (getStoresArray stores ! i)")
       (simp_all add: isLoadable_def isReloadable_def)
  then obtain m where m: "?es ! i = Promised m" ..
  have "awaited evs (Promise_all ?es) = Pending"
    using assms(1) m assms(3) by (intro Promise_all_pending) simp_all
  then show ?thesis
    by (simp only: ReloadAll parentLoadFunction.simps reloadAll_def)
qed

lemma parent_load_fulfilled:
  assumes "\<forall>j < length (getStoresArray stores).
             (case f of LoadAll \<Rightarrow> isLoadable (getStoresArray stores ! j)
                      | ReloadAll \<Rightarrow> isReloadable (getStoresArray stores ! j) \<or>
                                     isLoadable (getStoresArray stores ! j)) \<longrightarrow> j \<in> set js"
  shows "\<exists>pv. awaited (map (\<lambda>i. (i, Inr (res i))) js)
                 (parentLoadFunction f stores) = Fulfilled pv"
proof (cases f)
  case LoadAll
  let ?es = "map (\<lambda>s. case load s of Some m \<Rightarrow> Promised m | None \<Rightarrow> Direct (get s))
                 (getStoresArray stores)"
  have "\<forall>j < length ?es. (\<exists>m. ?es ! j = Promised m) \<longrightarrow> j \<in> set js"
    using assms LoadAll by (auto simp: isLoadable_def split: option.splits)
  from Promise_all_fulfilled [OF this, of res] LoadAll show ?thesis
    by (simp add: loadAll_def)
next
  case ReloadAll
  let ?es = "map (\<lambda>s. case reload s of Some m \<Rightarrow> Promised m
                       | None \<Rightarrow> (case load s of Some m \<Rightarrow> Promised m | None \<Rightarrow> Direct (get s)))
                 (getStoresArray stores)"
  have "\<forall>j < length ?es. (\<exists>m. ?es ! j = Promised m) \<longrightarrow> j \<in> set js"
    using assms ReloadAll by (auto simp: isLoadable_def isReloadable_def split: option.splits)
  from Promise_all_fulfilled [OF this, of res] ReloadAll show ?thesis
    by (simp add: reloadAll_def)
qed

text \<open>
  Claim C9. The store returned by \<open>derived\<close> has a \<open>load\<close> property exactly when one of
  its dependencies has one, and a \<open>reload\<close> property exactly when one of its dependencies
  has one; they are \<open>loadDependencies\<close> over \<open>loadAll\<close> and over \<open>reloadAll\<close>. Such a call
  awaits the aggregate: it is pending as long as a dependency that the dispatcher invoked
  has reported nothing and no other has rejected, it rejects with the error of the
  dependency that rejected first, and once every invoked dependency has fulfilled it
  resolves to the value that the plain store holds, whatever values the dependencies
  resolved with. At no stage does it invoke the mapping function or change the plain
  store. The value read from the returned store is the one the plain store computed from
  its dependencies' values.
\<close>

theorem derived_delegates:
  "(isLoadable (derived stores mappingFunction) \<longleftrightarrow>
      (\<exists>s \<in> set (getStoresArray stores). isLoadable s)) \<and>
   (isReloadable (derived stores mappingFunction) \<longleftrightarrow>
      (\<exists>s \<in> set (getStoresArray stores). isReloadable s)) \<and>
   (\<forall>m. load (derived stores mappingFunction) = Some m \<longrightarrow> m = Delegate LoadAll) \<and>
   (\<forall>m. reload (derived stores mappingFunction) = Some m \<longrightarrow> m = Delegate ReloadAll) \<and>
   (\<forall>evs i.
      i < length (getStoresArray stores) \<and>
      (case f of LoadAll \<Rightarrow> isLoadable (getStoresArray stores ! i)
               | ReloadAll \<Rightarrow> isReloadable (getStoresArray stores ! i) \<or>
                              isLoadable (getStoresArray stores ! i)) \<and>
      (\<forall>ev \<in> set evs. \<exists>j v. ev = (j, Inr v) \<and> j \<noteq> i) \<longrightarrow>
      loadDependencies thisStore f stores evs = (Pending, thisStore)) \<and>
   (\<forall>js res.
      (\<forall>j < length (getStoresArray stores).
         (case f of LoadAll \<Rightarrow> isLoadable (getStoresArray stores ! j)
                  | ReloadAll \<Rightarrow> isReloadable (getStoresArray stores ! j) \<or>
                                 isLoadable (getStoresArray stores ! j)) \<longrightarrow> j \<in> set js) \<longrightarrow>
      loadDependencies thisStore f stores (map (\<lambda>i. (i, Inr (res i))) js) =
        (Fulfilled (held thisStore), thisStore)) \<and>
   (\<forall>pre i e post.
      i < length (getStoresArray stores) \<and>
      (case f of LoadAll \<Rightarrow> isLoadable (getStoresArray stores ! i)
               | ReloadAll \<Rightarrow> isReloadable (getStoresArray stores ! i) \<or>
                              isLoadable (getStoresArray stores ! i)) \<and>
      (\<forall>ev \<in> set pre. \<exists>j v. ev = (j, Inr v) \<and> j \<noteq> i) \<longrightarrow>
      loadDependencies thisStore f stores (pre @ (i, Inl e) # post) = (Rejected e, thisStore)) \<and>
   (\<forall>reports.
      computed (snd (loadDependencies thisStore f stores reports)) = computed thisStore \<and>
      held (snd (loadDependencies thisStore f stores reports)) = held thisStore) \<and>
   get (derived stores mappingFunction) =
     mappingFunction (case stores of Single s \<Rightarrow> get s | Many xs \<Rightarrow> Arr (map get xs))"
proof -
  have c1: "isLoadable (derived stores mappingFunction) \<longleftrightarrow>
          (\<exists>s \<in> set (getStoresArray stores). isLoadable s)"
    by (simp add: derived_def isLoadable_def anyLoadable_def list_ex_iff)
  have c2: "isReloadable (derived stores mappingFunction) \<longleftrightarrow>
          (\<exists>s \<in> set (getStoresArray stores). isReloadable s)"
    by (simp add: derived_def isReloadable_def anyReloadable_def list_ex_iff)
  have c3: "\<forall>m. load (derived stores mappingFunction) = Some m \<longrightarrow> m = Delegate LoadAll"
    by (simp add: derived_def split: if_splits)
  have c4: "\<forall>m. reload (derived stores mappingFunction) = Some m \<longrightarrow> m = Delegate ReloadAll"
    by (simp add: derived_def split: if_splits)
  have c5: "loadDependencies thisStore f stores evs = (Pending, thisStore)"
    if h: "i < length (getStoresArray stores) \<and>
       (case f of LoadAll \<Rightarrow> isLoadable (getStoresArray stores ! i)
                | ReloadAll \<Rightarrow> isReloadable (getStoresArray stores ! i) \<or>
                               isLoadable (getStoresArray stores ! i)) \<and>
       (\<forall>ev \<in> set evs. \<exists>j v. ev = (j, Inr v) \<and> j \<noteq> i)" for evs i
  proof -
    have "awaited evs (parentLoadFunction f stores) = Pending"
      using h by (intro parent_load_pending [where i = i]) simp_all
    then show ?thesis by (simp only: loadDependencies_def pstate.case)
  qed
  have c6: "loadDependencies thisStore f stores (map (\<lambda>i. (i, Inr (res i))) js) =
          (Fulfilled (held thisStore), thisStore)"
    if h: "\<forall>j < length (getStoresArray stores).
         (case f of LoadAll \<Rightarrow> isLoadable (getStoresArray stores ! j)
                  | ReloadAll \<Rightarrow> isReloadable (getStoresArray stores ! j) \<or>
                                 isLoadable (getStoresArray stores ! j)) \<longrightarrow> j \<in> set js"
    for js res
  proof -
    from parent_load_fulfilled [OF h, of res]
    obtain pv where "awaited (map (\<lambda>i. (i, Inr (res i))) js) (parentLoadFunction f stores) =
                       Fulfilled pv" ..
    then show ?thesis by (simp only: loadDependencies_def pstate.case)
  qed
  have c7: "loadDependencies thisStore f stores (pre @ (i, Inl e) # post) = (Rejected e, thisStore)"
    if h: "i < length (getStoresArray stores) \<and>
       (case f of LoadAll \<Rightarrow> isLoadable (getStoresArray stores ! i)
                | ReloadAll \<Rightarrow> isReloadable (getStoresArray stores ! i) \<or>
                               isLoadable (getStoresArray stores ! i)) \<and>
       (\<forall>ev \<in> set pre. \<exists>j v. ev = (j, Inr v) \<and> j \<noteq> i)" for pre i e post
  proof -
    have "awaited (pre @ (i, Inl e) # post) (parentLoadFunction f stores) = Rejected e"
      using h by (intro parent_load_rejected) simp_all
    then show ?thesis by (simp only: loadDependencies_def pstate.case)
  qed
  have c8: "computed (snd (loadDependencies thisStore f stores reports)) = computed thisStore \<and>
            held (snd (loadDependencies thisStore f stores reports)) = held thisStore" for reports
    by (simp add: loadDependencies_def split: pstate.splits)
  have c9: "get (derived stores mappingFunction) =
          mappingFunction (case stores of Single s \<Rightarrow> get s | Many xs \<Rightarrow> Arr (map get xs))"
    by (simp add: derived_def get_def vanillaDerived_def storesValues_def)
  from c5 have c5': "\<forall>evs i.
      i < length (getStoresArray stores) \<and>
      (case f of LoadAll \<Rightarrow> isLoadable (getStoresArray stores ! i)
               | ReloadAll \<Rightarrow> isReloadable (getStoresArray stores ! i) \<or>
                              isLoadable (getStoresArray stores ! i)) \<and>
      (\<forall>ev \<in> set evs. \<exists>j v. ev = (j, Inr v) \<and> j \<noteq> i) \<longrightarrow>
      loadDependencies thisStore f stores evs = (Pending, thisStore)" by blast
  from c6 have c6': "\<forall>js res.
      (\<forall>j < length (getStoresArray stores).
         (case f of LoadAll \<Rightarrow> isLoadable (getStoresArray stores ! j)
                  | ReloadAll \<Rightarrow> isReloadable (getStoresArray stores ! j) \<or>
                                 isLoadable (getStoresArray stores ! j)) \<longrightarrow> j \<in> set js) \<longrightarrow>
      loadDependencies thisStore f stores (map (\<lambda>i. (i, Inr (res i))) js) =
        (Fulfilled (held thisStore), thisStore)" by blast
  from c7 have c7': "\<forall>pre i e post.
      i < length (getStoresArray stores) \<and>
      (case f of LoadAll \<Rightarrow> isLoadable (getStoresArray stores ! i)
               | ReloadAll \<Rightarrow> isReloadable (getStoresArray stores ! i) \<or>
                              isLoadable (getStoresArray stores ! i)) \<and>
      (\<forall>ev \<in> set pre. \<exists>j v. ev = (j, Inr v) \<and> j \<noteq> i) \<longrightarrow>
      loadDependencies thisStore f stores (pre @ (i, Inl e) # post) = (Rejected e, thisStore)"
    by blast
  from c8 have c8': "\<forall>reports.
      computed (snd (loadDependencies thisStore f stores reports)) = computed thisStore \<and>
      held (snd (loadDependencies thisStore f stores reports)) = held thisStore" by blast
  show ?thesis
    by (rule conjI [OF c1 conjI [OF c2 conjI [OF c3 conjI [OF c4 conjI [OF c5' conjI [OF c6'
          conjI [OF c7' conjI [OF c8' c9]]]]]]]])
qed


theorem derived_delegates_witness:
  "isLoadable (derived (parents Undefined Undefined) derived_from) \<and>
   isReloadable (derived (parents Undefined Undefined) derived_from) \<and>
   \<not> isLoadable (derived (Single (writableParent (Str ''writable''))) derived_from) \<and>
   loadDependencies myDerived LoadAll (parents (Str ''loadable'') (Str ''first value''))
     [(2, Inr (Str ''first value''))] = (Pending, myDerived) \<and>
   loadDependencies myDerived LoadAll (parents (Str ''loadable'') (Str ''first value''))
     (map (\<lambda>i. (i, Inr (if i = 1 then Str ''loadable'' else Str ''first value''))) [2, 1]) =
     (Fulfilled (Arr [Str ''derived from'',
                      Arr [Str ''writable'', Str ''loadable'', Str ''first value'']]), myDerived) \<and>
   loadDependencies myDerived ReloadAll (parents (Str ''loadable'') (Str ''first value''))
     ([(1, Inr (Str ''loadable''))] @ (2, Inl (Error ''F'')) # []) =
     (Rejected (Error ''F''), myDerived) \<and>
   computed (snd (loadDependencies myDerived ReloadAll
                    (parents (Str ''loadable'') (Str ''first value''))
                    [(1, Inr (Str ''loadable'')), (2, Inr (Str ''second value''))])) =
     [Arr [Str ''writable'', Undefined, Undefined],
      Arr [Str ''writable'', Str ''loadable'', Str ''first value'']] \<and>
   get (derived (parents (Str ''loadable'') (Str ''second value'')) derived_from) =
     Arr [Str ''derived from'', Arr [Str ''writable'', Str ''loadable'', Str ''second value'']]"
proof -
  let ?ps = "parents (Str ''loadable'') (Str ''first value'')"
  let ?res = "\<lambda>i::nat. if i = 1 then Str ''loadable'' else Str ''first value''"
  note defs = parents_def asyncReadableParent_def reloadableGrandparent_def writableParent_def
    asyncReadable_def asyncDerived_def asyncWritable_def isLoadable_def isReloadable_def
    anyReloadable_def
  have xs: "getStoresArray ?ps =
              [writableParent (Str ''writable''), asyncReadableParent (Str ''loadable''),
               reloadableGrandparent (Str ''first value'')]"
    by (simp add: parents_def)
  have l0: "\<not> isLoadable (writableParent (Str ''writable''))"
    and l1: "isLoadable (asyncReadableParent (Str ''loadable''))"
    and l2: "isLoadable (reloadableGrandparent (Str ''first value''))"
    and r2: "isReloadable (reloadableGrandparent (Str ''first value''))"
    by (simp_all add: defs)
  note a = derived_delegates [where stores = "parents Undefined Undefined"
             and mappingFunction = derived_from]
  note b = derived_delegates [where stores = "Single (writableParent (Str ''writable''))"
             and mappingFunction = derived_from]
  note c = derived_delegates [where stores = ?ps and thisStore = myDerived and f = LoadAll]
  note d = derived_delegates [where stores = ?ps and thisStore = myDerived and f = ReloadAll]
  note e = derived_delegates [where stores = "parents (Str ''loadable'') (Str ''second value'')"
             and mappingFunction = derived_from]
  have g1: "isLoadable (derived (parents Undefined Undefined) derived_from)"
    using a [THEN conjunct1] by (simp add: defs)
  have g2: "isReloadable (derived (parents Undefined Undefined) derived_from)"
    using a [THEN conjunct2, THEN conjunct1] by (simp add: defs)
  have g3: "\<not> isLoadable (derived (Single (writableParent (Str ''writable''))) derived_from)"
    using b [THEN conjunct1] by (simp add: defs)
  have g4: "loadDependencies myDerived LoadAll ?ps [(2, Inr (Str ''first value''))] =
              (Pending, myDerived)"
    using c [THEN conjunct2, THEN conjunct2, THEN conjunct2, THEN conjunct2, THEN conjunct1,
             rule_format, of 1 "[(2, Inr (Str ''first value''))]"] l1
    by (simp add: xs)
  have cover: "j \<in> set [2, 1]"
    if "j < length (getStoresArray ?ps)" "isLoadable (getStoresArray ?ps ! j)" for j
    using that l0 by (auto simp: xs less_Suc_eq nth_Cons')
  have g5: "loadDependencies myDerived LoadAll ?ps (map (\<lambda>i. (i, Inr (?res i))) [2, 1]) =
              (Fulfilled (Arr [Str ''derived from'',
                 Arr [Str ''writable'', Str ''loadable'', Str ''first value'']]), myDerived)"
  proof -
    have "loadDependencies myDerived LoadAll ?ps (map (\<lambda>i. (i, Inr (?res i))) [2, 1]) =
            (Fulfilled (held myDerived), myDerived)"
      using c [THEN conjunct2, THEN conjunct2, THEN conjunct2, THEN conjunct2, THEN conjunct2,
               THEN conjunct1, rule_format, of "[2, 1]" ?res] cover
      by simp
    moreover have "held myDerived =
        Arr [Str ''derived from'', Arr [Str ''writable'', Str ''loadable'', Str ''first value'']]"
      by (simp add: myDerived_def dependency_changed_def derived_from_def storesValues_def
                    parents_def get_def asyncReadableParent_def reloadableGrandparent_def
                    writableParent_def)
    ultimately show ?thesis by simp
  qed
  have g6: "loadDependencies myDerived ReloadAll ?ps
              ([(1, Inr (Str ''loadable''))] @ (2, Inl (Error ''F'')) # []) =
              (Rejected (Error ''F''), myDerived)"
    using d [THEN conjunct2, THEN conjunct2, THEN conjunct2, THEN conjunct2, THEN conjunct2,
             THEN conjunct2, THEN conjunct1, rule_format,
             of 2 "[(1, Inr (Str ''loadable''))]" "Error ''F''" "[]"] r2
    by (simp add: xs)
  have g7: "computed (snd (loadDependencies myDerived ReloadAll ?ps
                    [(1, Inr (Str ''loadable'')), (2, Inr (Str ''second value''))])) =
     [Arr [Str ''writable'', Undefined, Undefined],
      Arr [Str ''writable'', Str ''loadable'', Str ''first value'']]"
  proof -
    have "computed (snd (loadDependencies myDerived ReloadAll ?ps
                    [(1, Inr (Str ''loadable'')), (2, Inr (Str ''second value''))])) =
            computed myDerived"
      using d [THEN conjunct2, THEN conjunct2, THEN conjunct2, THEN conjunct2, THEN conjunct2,
               THEN conjunct2, THEN conjunct2, THEN conjunct1, rule_format,
               of "[(1, Inr (Str ''loadable'')), (2, Inr (Str ''second value''))]"]
      by simp
    moreover have "computed myDerived =
       [Arr [Str ''writable'', Undefined, Undefined],
        Arr [Str ''writable'', Str ''loadable'', Str ''first value'']]"
      by (simp add: myDerived_def dependency_changed_def vanillaDerived_def storesValues_def
                    parents_def get_def asyncReadableParent_def reloadableGrandparent_def
                    writableParent_def)
    ultimately show ?thesis by simp
  qed
  have g8: "get (derived (parents (Str ''loadable'') (Str ''second value'')) derived_from) =
     Arr [Str ''derived from'', Arr [Str ''writable'', Str ''loadable'', Str ''second value'']]"
    using e [THEN conjunct2, THEN conjunct2, THEN conjunct2, THEN conjunct2, THEN conjunct2,
             THEN conjunct2, THEN conjunct2, THEN conjunct2]
    by (simp add: derived_from_def parents_def get_def asyncReadableParent_def
                  reloadableGrandparent_def writableParent_def)
  show ?thesis
    by (rule conjI [OF g1 conjI [OF g2 conjI [OF g3 conjI [OF g4 conjI [OF g5 conjI [OF g6
          conjI [OF g7 g8]]]]]]])
qed

section \<open>The write path\<close>

lemma set_before_write:
  assumes "awaited (load_reports env) (loadAll stores) = Pending \<or>
           (\<exists>pv. awaited (load_reports env) (loadAll stores) =
                   Fulfilled pv) \<and> written env = Pending"
  shows "fst (setStoreValueThenWrite stringify stores reloadable v env s) = Set_waiting \<and>
         cell (snd (setStoreValueThenWrite stringify stores reloadable v env s)) = v \<and>
         sets (snd (setStoreValueThenWrite stringify stores reloadable v env s)) = sets s @ [v]"
  using assms by (auto simp: setStoreValueThenWrite_def Let_def)

lemma set_dependencies_rejected:
  assumes "awaited (load_reports env) (loadAll stores) = Rejected e"
  shows "setStoreValueThenWrite stringify stores reloadable v env s =
           (Set_rejected e, thisStore_set v s)"
  using assms by (simp add: setStoreValueThenWrite_def Let_def)

lemma cycle_keeps_writes:
  "writes (snd (loadDependenciesThenSet stringify f stores reports stores_now force mres s)) = writes s"
  by (auto simp: loadDependenciesThenSet_def Let_def
           split: pstate.splits option.splits mapres.splits)

lemma set_write_invoked:
  assumes "awaited (load_reports env) (loadAll stores) = Fulfilled pv"
  shows "writes (snd (setStoreValueThenWrite stringify stores reloadable v env s)) =
           writes s @ [(v, pv)]"
proof (cases "written env")
  case Pending
  with assms show ?thesis by (simp add: setStoreValueThenWrite_def Let_def)
next
  case (Rejected e)
  with assms show ?thesis by (simp add: setStoreValueThenWrite_def Let_def)
next
  case (Fulfilled w)
  show ?thesis
  proof (cases reloadable)
    case False
    with assms Fulfilled show ?thesis by (simp add: setStoreValueThenWrite_def Let_def)
  next
    case True
    let ?s2 = "(thisStore_set v s)\<lparr>writes := writes (thisStore_set v s) @ [(v, pv)]\<rparr>"
    let ?s3 = "if w \<noteq> Undefined then thisStore_set w ?s2 else ?s2"
    obtain r s4 where c: "loadDependenciesThenSet stringify ReloadAll stores (reload_reports env)
                            (reload_stores_now env) True (reload_mres env) ?s3 = (r, s4)"
      by (cases "loadDependenciesThenSet stringify ReloadAll stores (reload_reports env)
                   (reload_stores_now env) True (reload_mres env) ?s3")
    from cycle_keeps_writes [of stringify ReloadAll stores "reload_reports env"
           "reload_stores_now env" True "reload_mres env" ?s3] c
    have "writes s4 = writes s @ [(v, pv)]" by (simp split: if_splits)
    with assms Fulfilled True c show ?thesis
      by (simp add: setStoreValueThenWrite_def Let_def split: ret.splits option.splits)
  qed
qed

lemma set_write_not_invoked:
  assumes "\<forall>pv. awaited (load_reports env) (loadAll stores) \<noteq>
                Fulfilled pv"
  shows "writes (snd (setStoreValueThenWrite stringify stores reloadable v env s)) = writes s"
  using assms
  by (cases "awaited (load_reports env) (loadAll stores)")
     (simp_all add: setStoreValueThenWrite_def Let_def)

lemma set_write_rejected:
  assumes "awaited (load_reports env) (loadAll stores) = Fulfilled pv"
    and "written env = Rejected e"
  shows "fst (setStoreValueThenWrite stringify stores reloadable v env s) = Set_rejected e \<and>
         cell (snd (setStoreValueThenWrite stringify stores reloadable v env s)) = v \<and>
         sets (snd (setStoreValueThenWrite stringify stores reloadable v env s)) = sets s @ [v] \<and>
         calls (snd (setStoreValueThenWrite stringify stores reloadable v env s)) = calls s"
  using assms by (simp add: setStoreValueThenWrite_def Let_def)

lemma set_not_reloadable:
  assumes "awaited (load_reports env) (loadAll stores) = Fulfilled pv"
    and "written env = Fulfilled w" and "\<not> reloadable"
  shows "fst (setStoreValueThenWrite stringify stores reloadable v env s) = Set_resolved \<and>
         cell (snd (setStoreValueThenWrite stringify stores reloadable v env s)) =
           (if w \<noteq> Undefined then w else v) \<and>
         sets (snd (setStoreValueThenWrite stringify stores reloadable v env s)) =
           sets s @ [v] @ (if w \<noteq> Undefined then [w] else []) \<and>
         calls (snd (setStoreValueThenWrite stringify stores reloadable v env s)) = calls s"
  using assms by (simp add: setStoreValueThenWrite_def Let_def)

lemma forced_cycle:
  assumes "awaited reports (parentLoadFunction f stores) = Fulfilled pv"
  shows "\<exists>arg. loadDependenciesThenSet stringify f stores reports stores_now True Returns_promise s =
           (Ret_promise (length (heap s)),
            s\<lparr>calls := calls s @ [arg], heap := heap s @ [Pending],
               currentLoadPromise := Some (length (heap s))\<rparr>)"
  using assms by (simp add: loadDependenciesThenSet_def Let_def) blast

lemma set_reloadable:
  assumes "awaited (load_reports env) (loadAll stores) = Fulfilled pv"
    and "written env = Fulfilled w" and "reloadable"
    and "awaited (reload_reports env) (reloadAll stores) = Fulfilled pv'"
    and "reload_mres env = Returns_promise"
  shows "(\<exists>arg. calls (snd (setStoreValueThenWrite stringify stores reloadable v env s)) =
                  calls s @ [arg]) \<and>
         (case reload_settles env of
            None \<Rightarrow>
              fst (setStoreValueThenWrite stringify stores reloadable v env s) = Set_waiting \<and>
              sets (snd (setStoreValueThenWrite stringify stores reloadable v env s)) =
                sets s @ [v] @ (if w \<noteq> Undefined then [w] else [])
          | Some (Inl e) \<Rightarrow>
              fst (setStoreValueThenWrite stringify stores reloadable v env s) = Set_rejected e \<and>
              sets (snd (setStoreValueThenWrite stringify stores reloadable v env s)) =
                sets s @ [v] @ (if w \<noteq> Undefined then [w] else [])
          | Some (Inr x) \<Rightarrow>
              fst (setStoreValueThenWrite stringify stores reloadable v env s) = Set_resolved \<and>
              cell (snd (setStoreValueThenWrite stringify stores reloadable v env s)) = x \<and>
              sets (snd (setStoreValueThenWrite stringify stores reloadable v env s)) =
                sets s @ [v] @ (if w \<noteq> Undefined then [w] else []) @ [x])"
proof -
  let ?s2 = "(thisStore_set v s)\<lparr>writes := writes (thisStore_set v s) @ [(v, pv)]\<rparr>"
  let ?s3 = "if w \<noteq> Undefined then thisStore_set w ?s2 else ?s2"
  have a: "awaited (reload_reports env)
             (parentLoadFunction ReloadAll stores) = Fulfilled pv'"
    using assms(4) by simp
  from forced_cycle [OF a, of stringify "reload_stores_now env" ?s3]
  obtain arg where c: "loadDependenciesThenSet stringify ReloadAll stores (reload_reports env)
        (reload_stores_now env) True Returns_promise ?s3 =
      (Ret_promise (length (heap ?s3)),
       ?s3\<lparr>calls := calls ?s3 @ [arg], heap := heap ?s3 @ [Pending],
            currentLoadPromise := Some (length (heap ?s3))\<rparr>)"
    by blast
  let ?s4 = "?s3\<lparr>calls := calls ?s3 @ [arg], heap := heap ?s3 @ [Pending],
                 currentLoadPromise := Some (length (heap ?s3))\<rparr>"
  have s3: "calls ?s3 = calls s" "sets ?s3 = sets s @ [v] @ (if w \<noteq> Undefined then [w] else [])"
    by (simp_all add: thisStore_set_def)
  have d: "setStoreValueThenWrite stringify stores reloadable v env s =
             (let s5 = (case reload_settles env of
                          Some out \<Rightarrow> mapping_settled (length (heap ?s3)) out ?s4
                        | None \<Rightarrow> ?s4)
              in (case ret_state (Ret_promise (length (heap ?s3))) s5 of
                    Pending \<Rightarrow> Set_waiting
                  | Fulfilled x \<Rightarrow> Set_resolved
                  | Rejected e \<Rightarrow> Set_rejected e, s5))"
    using assms(1,2,3,5) c
    by (simp add: setStoreValueThenWrite_def Let_def del: thisStore_set_def split del: if_split)
  show ?thesis
  proof (cases "reload_settles env")
    case None
    with d s3 show ?thesis
      by (simp add: ret_state_def)
  next
    case (Some out)
    show ?thesis
    proof (cases out)
      case (Inl e)
      with d s3 Some show ?thesis
        by (simp add: ret_state_def mapping_settled_def)
    next
      case (Inr x)
      with d s3 Some show ?thesis
        by (simp add: ret_state_def mapping_settled_def thisStore_set_def)
    qed
  qed
qed

lemma set_reload_pending:
  assumes "awaited (load_reports env) (loadAll stores) = Fulfilled pv"
    and "written env = Fulfilled w" and "reloadable"
    and "awaited (reload_reports env) (reloadAll stores) = Pending"
  shows "fst (setStoreValueThenWrite stringify stores reloadable v env s) = Set_waiting \<and>
         calls (snd (setStoreValueThenWrite stringify stores reloadable v env s)) = calls s \<and>
         sets (snd (setStoreValueThenWrite stringify stores reloadable v env s)) =
           sets s @ [v] @ (if w \<noteq> Undefined then [w] else [])"
  using assms
  by (simp add: setStoreValueThenWrite_def loadDependenciesThenSet_def Let_def ret_state_def)

lemma set_reload_rejected:
  assumes "awaited (load_reports env) (loadAll stores) = Fulfilled pv"
    and "written env = Fulfilled w" and "reloadable"
    and "awaited (reload_reports env) (reloadAll stores) = Rejected e"
  shows "fst (setStoreValueThenWrite stringify stores reloadable v env s) = Set_rejected e \<and>
         calls (snd (setStoreValueThenWrite stringify stores reloadable v env s)) = calls s \<and>
         sets (snd (setStoreValueThenWrite stringify stores reloadable v env s)) =
           sets s @ [v] @ (if w \<noteq> Undefined then [w] else [])"
  using assms
  by (cases "reload_settles env")
     (simp_all add: setStoreValueThenWrite_def loadDependenciesThenSet_def Let_def ret_state_def
                    mapping_settled_def nth_append)

lemma set_reload_throws:
  assumes "awaited (load_reports env) (loadAll stores) = Fulfilled pv"
    and "written env = Fulfilled w" and "reloadable"
    and "awaited (reload_reports env) (reloadAll stores) = Fulfilled pv'"
    and "reload_mres env = Throws e"
  shows "fst (setStoreValueThenWrite stringify stores reloadable v env s) = Set_rejected e \<and>
         (\<exists>arg. calls (snd (setStoreValueThenWrite stringify stores reloadable v env s)) =
                  calls s @ [arg]) \<and>
         sets (snd (setStoreValueThenWrite stringify stores reloadable v env s)) =
           sets s @ [v] @ (if w \<noteq> Undefined then [w] else [])"
  using assms
  by (simp add: setStoreValueThenWrite_def loadDependenciesThenSet_def Let_def ret_state_def)

text \<open>
  Claim C8. \<open>set(v)\<close> on an \<open>asyncWritable\<close> store publishes \<open>v\<close> first: while
  \<open>loadAll(stores)\<close> or the write function's promise is still pending the cell holds \<open>v\<close>.
  The dependencies are loaded with \<open>loadAll\<close>; when they have, the write function is
  invoked once with \<open>v\<close> and their values, and not at all otherwise (a rejection of
  \<open>loadAll\<close> rejects \<open>set\<close>). When the write function resolves, its result is published
  if and only if it is not \<open>undefined\<close>. A store constructed reloadable then runs a forced
  cycle through \<open>reloadAll\<close>: \<open>set\<close> is pending, and the mapping function not invoked, as
  long as the aggregate of \<open>reloadAll(stores)\<close> is pending, which it is while a dependency
  with a \<open>reload\<close> or a \<open>load\<close> method has reported nothing and no other has rejected;
  \<open>set\<close> rejects with the error of that aggregate when it rejects, again without an
  invocation; once it has fulfilled the mapping function is invoked whatever the recorded
  key is, and \<open>set\<close> settles as that cycle does (with the error when the mapping function
  throws), its value being published last. When the write function rejects, \<open>set\<close>
  rejects with the same error, the cell still holds \<open>v\<close>, and no cycle is run.
\<close>

theorem set_publishes_writes_reconciles:
  "(case setStoreValueThenWrite stringify stores reloadable v env s of
      (r, s') \<Rightarrow>
        (awaited (load_reports env) (loadAll stores) = Pending \<or>
         (\<exists>pv. awaited (load_reports env) (loadAll stores) = Fulfilled pv) \<and>
         written env = Pending \<longrightarrow>
           r = Set_waiting \<and> cell s' = v \<and> sets s' = sets s @ [v]) \<and>
        (awaited (load_reports env) (loadAll stores) = Rejected e \<longrightarrow>
           r = Set_rejected e \<and> s' = thisStore_set v s) \<and>
        (awaited (load_reports env) (loadAll stores) = Fulfilled pv \<longrightarrow>
           writes s' = writes s @ [(v, pv)]) \<and>
        ((\<forall>pv. awaited (load_reports env) (loadAll stores) \<noteq> Fulfilled pv) \<longrightarrow>
           writes s' = writes s) \<and>
        (awaited (load_reports env) (loadAll stores) = Fulfilled pv \<and>
         written env = Rejected e \<longrightarrow>
           r = Set_rejected e \<and> cell s' = v \<and> sets s' = sets s @ [v] \<and> calls s' = calls s) \<and>
        (awaited (load_reports env) (loadAll stores) = Fulfilled pv \<and>
         written env = Fulfilled w \<and> \<not> reloadable \<longrightarrow>
           r = Set_resolved \<and> cell s' = (if w \<noteq> Undefined then w else v) \<and>
           sets s' = sets s @ [v] @ (if w \<noteq> Undefined then [w] else []) \<and>
           calls s' = calls s) \<and>
        (awaited (load_reports env) (loadAll stores) = Fulfilled pv \<and>
         written env = Fulfilled w \<and> reloadable \<and>
         awaited (reload_reports env) (reloadAll stores) = Fulfilled pv' \<and>
         reload_mres env = Returns_promise \<longrightarrow>
           (\<exists>arg. calls s' = calls s @ [arg]) \<and>
           (case reload_settles env of
              None \<Rightarrow>
                r = Set_waiting \<and>
                sets s' = sets s @ [v] @ (if w \<noteq> Undefined then [w] else [])
            | Some (Inl e) \<Rightarrow>
                r = Set_rejected e \<and>
                sets s' = sets s @ [v] @ (if w \<noteq> Undefined then [w] else [])
            | Some (Inr x) \<Rightarrow>
                r = Set_resolved \<and> cell s' = x \<and>
                sets s' = sets s @ [v] @ (if w \<noteq> Undefined then [w] else []) @ [x])) \<and>
        (awaited (load_reports env) (loadAll stores) = Fulfilled pv \<and>
         written env = Fulfilled w \<and> reloadable \<and>
         awaited (reload_reports env) (reloadAll stores) = Pending \<longrightarrow>
           r = Set_waiting \<and> calls s' = calls s \<and>
           sets s' = sets s @ [v] @ (if w \<noteq> Undefined then [w] else [])) \<and>
        (awaited (load_reports env) (loadAll stores) = Fulfilled pv \<and>
         written env = Fulfilled w \<and> reloadable \<and>
         awaited (reload_reports env) (reloadAll stores) = Rejected e \<longrightarrow>
           r = Set_rejected e \<and> calls s' = calls s \<and>
           sets s' = sets s @ [v] @ (if w \<noteq> Undefined then [w] else [])) \<and>
        (awaited (load_reports env) (loadAll stores) = Fulfilled pv \<and>
         written env = Fulfilled w \<and> reloadable \<and>
         awaited (reload_reports env) (reloadAll stores) = Fulfilled pv' \<and>
         reload_mres env = Throws e \<longrightarrow>
           r = Set_rejected e \<and> (\<exists>arg. calls s' = calls s @ [arg]) \<and>
           sets s' = sets s @ [v] @ (if w \<noteq> Undefined then [w] else [])) \<and>
        (awaited (load_reports env) (loadAll stores) = Fulfilled pv \<and>
         written env = Fulfilled w \<and> reloadable \<and>
         i < length (getStoresArray stores) \<and>
         (isReloadable (getStoresArray stores ! i) \<or> isLoadable (getStoresArray stores ! i)) \<and>
         (\<forall>ev \<in> set (reload_reports env). \<exists>j x. ev = (j, Inr x) \<and> j \<noteq> i) \<longrightarrow>
           r = Set_waiting \<and> calls s' = calls s) \<and>
        (awaited (load_reports env) (loadAll stores) = Fulfilled pv \<and>
         written env = Fulfilled w \<and> reloadable \<and>
         i < length (getStoresArray stores) \<and>
         (isReloadable (getStoresArray stores ! i) \<or> isLoadable (getStoresArray stores ! i)) \<and>
         reload_reports env = pre @ (i, Inl e) # post \<and>
         (\<forall>ev \<in> set pre. \<exists>j x. ev = (j, Inr x) \<and> j \<noteq> i) \<longrightarrow>
           r = Set_rejected e \<and> calls s' = calls s))"
proof -
  obtain r s' where c: "setStoreValueThenWrite stringify stores reloadable v env s = (r, s')"
    by (cases "setStoreValueThenWrite stringify stores reloadable v env s")
  have 1: "r = Set_waiting \<and> cell s' = v \<and> sets s' = sets s @ [v]"
    if "awaited (load_reports env) (loadAll stores) = Pending \<or>
        (\<exists>pv. awaited (load_reports env) (loadAll stores) = Fulfilled pv) \<and> written env = Pending"
    using set_before_write [OF that, of stringify reloadable v s] unfolding c fst_conv snd_conv by simp
  have 2: "r = Set_rejected e \<and> s' = thisStore_set v s"
    if "awaited (load_reports env) (loadAll stores) = Rejected e"
    using set_dependencies_rejected [OF that, of stringify reloadable v s] unfolding c fst_conv snd_conv by simp
  have 3: "writes s' = writes s @ [(v, pv)]"
    if "awaited (load_reports env) (loadAll stores) = Fulfilled pv"
    using set_write_invoked [OF that, of stringify reloadable v s] unfolding c fst_conv snd_conv by simp
  have 4: "writes s' = writes s"
    if "\<forall>pv. awaited (load_reports env) (loadAll stores) \<noteq> Fulfilled pv"
    using set_write_not_invoked [OF that, of stringify reloadable v s] unfolding c fst_conv snd_conv by simp
  have 5: "r = Set_rejected e \<and> cell s' = v \<and> sets s' = sets s @ [v] \<and> calls s' = calls s"
    if h: "awaited (load_reports env) (loadAll stores) = Fulfilled pv \<and> written env = Rejected e"
  proof -
    from h have x: "awaited (load_reports env) (loadAll stores) = Fulfilled pv"
      and y: "written env = Rejected e" by simp_all
    from set_write_rejected [OF x y, of stringify reloadable v s]
    show ?thesis unfolding c fst_conv snd_conv .
  qed
  have 6: "r = Set_resolved \<and> cell s' = (if w \<noteq> Undefined then w else v) \<and>
           sets s' = sets s @ [v] @ (if w \<noteq> Undefined then [w] else []) \<and> calls s' = calls s"
    if h: "awaited (load_reports env) (loadAll stores) = Fulfilled pv \<and>
           written env = Fulfilled w \<and> \<not> reloadable"
  proof -
    from h have x: "awaited (load_reports env) (loadAll stores) = Fulfilled pv"
      and y: "written env = Fulfilled w" and z: "\<not> reloadable" by simp_all
    from set_not_reloadable [OF x y z, of stringify v s]
    show ?thesis unfolding c fst_conv snd_conv .
  qed
  have 7: "(\<exists>arg. calls s' = calls s @ [arg]) \<and>
           (case reload_settles env of
              None \<Rightarrow>
                r = Set_waiting \<and>
                sets s' = sets s @ [v] @ (if w \<noteq> Undefined then [w] else [])
            | Some (Inl e) \<Rightarrow>
                r = Set_rejected e \<and>
                sets s' = sets s @ [v] @ (if w \<noteq> Undefined then [w] else [])
            | Some (Inr x) \<Rightarrow>
                r = Set_resolved \<and> cell s' = x \<and>
                sets s' = sets s @ [v] @ (if w \<noteq> Undefined then [w] else []) @ [x])"
    if h: "awaited (load_reports env) (loadAll stores) = Fulfilled pv \<and>
           written env = Fulfilled w \<and> reloadable \<and>
           awaited (reload_reports env) (reloadAll stores) = Fulfilled pv' \<and>
           reload_mres env = Returns_promise"
  proof -
    from h have x: "awaited (load_reports env) (loadAll stores) = Fulfilled pv"
      and y: "written env = Fulfilled w" and z: "reloadable"
      and u: "awaited (reload_reports env) (reloadAll stores) = Fulfilled pv'"
      and t: "reload_mres env = Returns_promise" by simp_all
    from set_reloadable [OF x y z u t, of stringify v s]
    show ?thesis unfolding c fst_conv snd_conv .
  qed
  have 8: "r = Set_waiting \<and> calls s' = calls s \<and>
           sets s' = sets s @ [v] @ (if w \<noteq> Undefined then [w] else [])"
    if h: "awaited (load_reports env) (loadAll stores) = Fulfilled pv \<and>
           written env = Fulfilled w \<and> reloadable \<and>
           awaited (reload_reports env) (reloadAll stores) = Pending"
  proof -
    from h have x: "awaited (load_reports env) (loadAll stores) = Fulfilled pv"
      and y: "written env = Fulfilled w" and z: "reloadable"
      and u: "awaited (reload_reports env) (reloadAll stores) = Pending" by simp_all
    from set_reload_pending [OF x y z u, of stringify v s]
    show ?thesis unfolding c fst_conv snd_conv .
  qed
  have 9: "r = Set_rejected e \<and> calls s' = calls s \<and>
           sets s' = sets s @ [v] @ (if w \<noteq> Undefined then [w] else [])"
    if h: "awaited (load_reports env) (loadAll stores) = Fulfilled pv \<and>
           written env = Fulfilled w \<and> reloadable \<and>
           awaited (reload_reports env) (reloadAll stores) = Rejected e"
  proof -
    from h have x: "awaited (load_reports env) (loadAll stores) = Fulfilled pv"
      and y: "written env = Fulfilled w" and z: "reloadable"
      and u: "awaited (reload_reports env) (reloadAll stores) = Rejected e" by simp_all
    from set_reload_rejected [OF x y z u, of stringify v s]
    show ?thesis unfolding c fst_conv snd_conv .
  qed
  have 10: "r = Set_rejected e \<and> (\<exists>arg. calls s' = calls s @ [arg]) \<and>
           sets s' = sets s @ [v] @ (if w \<noteq> Undefined then [w] else [])"
    if h: "awaited (load_reports env) (loadAll stores) = Fulfilled pv \<and>
           written env = Fulfilled w \<and> reloadable \<and>
           awaited (reload_reports env) (reloadAll stores) = Fulfilled pv' \<and>
           reload_mres env = Throws e"
  proof -
    from h have x: "awaited (load_reports env) (loadAll stores) = Fulfilled pv"
      and y: "written env = Fulfilled w" and z: "reloadable"
      and u: "awaited (reload_reports env) (reloadAll stores) = Fulfilled pv'"
      and t: "reload_mres env = Throws e" by simp_all
    from set_reload_throws [OF x y z u t, of stringify v s]
    show ?thesis unfolding c fst_conv snd_conv .
  qed
  have 11: "r = Set_waiting \<and> calls s' = calls s"
    if h: "awaited (load_reports env) (loadAll stores) = Fulfilled pv \<and>
           written env = Fulfilled w \<and> reloadable \<and>
           i < length (getStoresArray stores) \<and>
           (isReloadable (getStoresArray stores ! i) \<or> isLoadable (getStoresArray stores ! i)) \<and>
           (\<forall>ev \<in> set (reload_reports env). \<exists>j x. ev = (j, Inr x) \<and> j \<noteq> i)"
  proof -
    from h have x: "awaited (load_reports env) (loadAll stores) = Fulfilled pv"
      and y: "written env = Fulfilled w" and z: "reloadable" by simp_all
    have "awaited (reload_reports env) (parentLoadFunction ReloadAll stores) = Pending"
      using h by (intro parent_load_pending [where i = i]) simp_all
    then have u: "awaited (reload_reports env) (reloadAll stores) = Pending" by simp
    from set_reload_pending [OF x y z u, of stringify v s]
    show ?thesis unfolding c fst_conv snd_conv by simp
  qed
  have 12: "r = Set_rejected e \<and> calls s' = calls s"
    if h: "awaited (load_reports env) (loadAll stores) = Fulfilled pv \<and>
           written env = Fulfilled w \<and> reloadable \<and>
           i < length (getStoresArray stores) \<and>
           (isReloadable (getStoresArray stores ! i) \<or> isLoadable (getStoresArray stores ! i)) \<and>
           reload_reports env = pre @ (i, Inl e) # post \<and>
           (\<forall>ev \<in> set pre. \<exists>j x. ev = (j, Inr x) \<and> j \<noteq> i)"
  proof -
    from h have x: "awaited (load_reports env) (loadAll stores) = Fulfilled pv"
      and y: "written env = Fulfilled w" and z: "reloadable"
      and q: "reload_reports env = pre @ (i, Inl e) # post" by simp_all
    have "awaited (pre @ (i, Inl e) # post) (parentLoadFunction ReloadAll stores) = Rejected e"
      using h by (intro parent_load_rejected [where i = i]) simp_all
    then have u: "awaited (reload_reports env) (reloadAll stores) = Rejected e"
      by (simp only: q parentLoadFunction.simps)
    from set_reload_rejected [OF x y z u, of stringify v s]
    show ?thesis unfolding c fst_conv snd_conv by simp
  qed
  show ?thesis
    unfolding c prod.case
    by (rule conjI, rule impI, erule 1, rule conjI, rule impI, erule 2,
        rule conjI, rule impI, erule 3, rule conjI, rule impI, erule 4,
        rule conjI, rule impI, erule 5, rule conjI, rule impI, erule 6,
        rule conjI, rule impI, erule 7, rule conjI, rule impI, erule 8,
        rule conjI, rule impI, erule 9, rule conjI, rule impI, erule 10,
        rule conjI, rule impI, erule 11, rule impI, erule 12)
qed


theorem set_publishes_writes_reconciles_witness:
  "awaited (load_reports (write_finds Pending)) (loadAll tokenParent) =
     Fulfilled (Arr [Str ''token'']) \<and>
   (case setStoreValueThenWrite JSON_stringify tokenParent False (Str ''optimistic'')
           (write_finds Pending) (init_store Undefined) of
      (r, s') \<Rightarrow>
        r = Set_waiting \<and> cell s' = Str ''optimistic'' \<and>
        writes s' = [(Str ''optimistic'', Arr [Str ''token''])]) \<and>
   (case setStoreValueThenWrite JSON_stringify tokenParent False (Str ''optimistic'')
           (write_finds (Fulfilled (Str ''canonical''))) (init_store Undefined) of
      (r, s') \<Rightarrow> r = Set_resolved \<and> cell s' = Str ''canonical'') \<and>
   (case setStoreValueThenWrite JSON_stringify tokenParent False (Str ''optimistic'')
           (write_finds (Fulfilled Undefined)) (init_store Undefined) of
      (r, s') \<Rightarrow> r = Set_resolved \<and> cell s' = Str ''optimistic'') \<and>
   (case setStoreValueThenWrite JSON_stringify tokenParent False (Str ''optimistic'')
           (write_finds (Rejected (Error ''write''))) (init_store Undefined) of
      (r, s') \<Rightarrow> r = Set_rejected (Error ''write'') \<and> cell s' = Str ''optimistic'') \<and>
   (case setStoreValueThenWrite JSON_stringify tokenParent True (Str ''optimistic'')
           (write_finds (Fulfilled (Str ''canonical''))) (init_store Undefined) of
      (r, s') \<Rightarrow>
        r = Set_resolved \<and>
        sets s' = [Str ''optimistic'', Str ''canonical'', Str ''reloaded'']) \<and>
   awaited (load_reports (reload_finds [])) (loadAll cachedParents) =
     Fulfilled (Arr [Str ''token'', Str ''cached'']) \<and>
   (case setStoreValueThenWrite JSON_stringify cachedParents True (Str ''optimistic'')
           (reload_finds []) (init_store Undefined) of
      (r, s') \<Rightarrow> r = Set_waiting \<and> calls s' = []) \<and>
   (case setStoreValueThenWrite JSON_stringify cachedParents True (Str ''optimistic'')
           (reload_finds [(1, Inl (Error ''reload''))]) (init_store Undefined) of
      (r, s') \<Rightarrow> r = Set_rejected (Error ''reload'') \<and> calls s' = []) \<and>
   (case setStoreValueThenWrite JSON_stringify cachedParents True (Str ''optimistic'')
           (reload_finds [(1, Inr (Str ''fresh''))]) (init_store Undefined) of
      (r, s') \<Rightarrow>
        r = Set_resolved \<and>
        sets s' = [Str ''optimistic'', Str ''canonical'', Str ''reloaded''])"
proof -
  let ?s = "init_store Undefined"
  let ?v = "Str ''optimistic''"
  let ?pv = "Arr [Str ''token'']"
  have a: "awaited (load_reports (write_finds w)) (loadAll tokenParent) = Fulfilled ?pv" for w
    by (simp add: write_finds_def tokenParent_def loadAll_def Promise_all_def aggregate_state_def
                  writableParent_def get_def)
  have ra: "awaited (reload_reports (write_finds w)) (reloadAll tokenParent) = Fulfilled ?pv" for w
    by (simp add: write_finds_def tokenParent_def reloadAll_def Promise_all_def aggregate_state_def
                  writableParent_def get_def)
  have w: "written (write_finds w) = w" "reload_mres (write_finds w) = Returns_promise"
    "reload_settles (write_finds w) = Some (Inr (Str ''reloaded''))" for w
    by (simp_all add: write_finds_def)
  have s0: "sets ?s = []" "writes ?s = []" by (simp_all add: init_store_def)
  obtain r1 s1 where c1: "setStoreValueThenWrite JSON_stringify tokenParent False ?v
                            (write_finds Pending) ?s = (r1, s1)"
    by (cases "setStoreValueThenWrite JSON_stringify tokenParent False ?v (write_finds Pending) ?s")
  from set_publishes_writes_reconciles
         [where stringify = JSON_stringify and stores = tokenParent and reloadable = False
            and v = ?v and env = "write_finds Pending" and s = ?s and pv = ?pv,
          unfolded c1 prod.case]
  have i1: "awaited (load_reports (write_finds Pending)) (loadAll tokenParent) = Pending \<or>
            (\<exists>pv. awaited (load_reports (write_finds Pending)) (loadAll tokenParent) =
                    Fulfilled pv) \<and> written (write_finds Pending) = Pending \<longrightarrow>
            r1 = Set_waiting \<and> cell s1 = ?v \<and> sets s1 = sets ?s @ [?v]"
    and i3: "awaited (load_reports (write_finds Pending)) (loadAll tokenParent) = Fulfilled ?pv \<longrightarrow>
            writes s1 = writes ?s @ [(?v, ?pv)]"
    by (rule conjunct1, rule conjunct2 [THEN conjunct2, THEN conjunct1])
  from i1 i3 a [of Pending] w(1) [of Pending]
  have "r1 = Set_waiting \<and> cell s1 = ?v \<and> writes s1 = writes ?s @ [(?v, ?pv)]"
    by blast
  then have g1: "case setStoreValueThenWrite JSON_stringify tokenParent False ?v
                        (write_finds Pending) ?s of
                   (r, s') \<Rightarrow> r = Set_waiting \<and> cell s' = ?v \<and> writes s' = [(?v, ?pv)]"
    unfolding c1 prod.case s0 by simp
  obtain r2 s2 where c2: "setStoreValueThenWrite JSON_stringify tokenParent False ?v
                            (write_finds (Fulfilled (Str ''canonical''))) ?s = (r2, s2)"
    by (cases "setStoreValueThenWrite JSON_stringify tokenParent False ?v
                 (write_finds (Fulfilled (Str ''canonical''))) ?s")
  from set_publishes_writes_reconciles
         [where stringify = JSON_stringify and stores = tokenParent and reloadable = False
            and v = ?v and env = "write_finds (Fulfilled (Str ''canonical''))" and s = ?s
            and pv = ?pv and w = "Str ''canonical''", unfolded c2 prod.case, THEN conjunct2, THEN conjunct2, THEN conjunct2, THEN conjunct2, THEN conjunct2, THEN conjunct1]
       a [of "Fulfilled (Str ''canonical'')"] w(1) [of "Fulfilled (Str ''canonical'')"]
  have "r2 = Set_resolved \<and>
        cell s2 = (if Str ''canonical'' \<noteq> Undefined then Str ''canonical'' else ?v)"
    by blast
  then have g2: "case setStoreValueThenWrite JSON_stringify tokenParent False ?v
                        (write_finds (Fulfilled (Str ''canonical''))) ?s of
                   (r, s') \<Rightarrow> r = Set_resolved \<and> cell s' = Str ''canonical''"
    unfolding c2 prod.case by simp
  obtain r3 s3 where c3: "setStoreValueThenWrite JSON_stringify tokenParent False ?v
                            (write_finds (Fulfilled Undefined)) ?s = (r3, s3)"
    by (cases "setStoreValueThenWrite JSON_stringify tokenParent False ?v
                 (write_finds (Fulfilled Undefined)) ?s")
  from set_publishes_writes_reconciles
         [where stringify = JSON_stringify and stores = tokenParent and reloadable = False
            and v = ?v and env = "write_finds (Fulfilled Undefined)" and s = ?s
            and pv = ?pv and w = Undefined, unfolded c3 prod.case, THEN conjunct2, THEN conjunct2, THEN conjunct2, THEN conjunct2, THEN conjunct2, THEN conjunct1]
       a [of "Fulfilled Undefined"] w(1) [of "Fulfilled Undefined"]
  have "r3 = Set_resolved \<and> cell s3 = (if Undefined \<noteq> Undefined then Undefined else ?v)"
    by blast
  then have g3: "case setStoreValueThenWrite JSON_stringify tokenParent False ?v
                        (write_finds (Fulfilled Undefined)) ?s of
                   (r, s') \<Rightarrow> r = Set_resolved \<and> cell s' = ?v"
    unfolding c3 prod.case by simp
  obtain r4 s4 where c4: "setStoreValueThenWrite JSON_stringify tokenParent False ?v
                            (write_finds (Rejected (Error ''write''))) ?s = (r4, s4)"
    by (cases "setStoreValueThenWrite JSON_stringify tokenParent False ?v
                 (write_finds (Rejected (Error ''write''))) ?s")
  from set_publishes_writes_reconciles
         [where stringify = JSON_stringify and stores = tokenParent and reloadable = False
            and v = ?v and env = "write_finds (Rejected (Error ''write''))" and s = ?s
            and pv = ?pv and e = "Error ''write''", unfolded c4 prod.case, THEN conjunct2, THEN conjunct2, THEN conjunct2, THEN conjunct2, THEN conjunct1]
       a [of "Rejected (Error ''write'')"] w(1) [of "Rejected (Error ''write'')"]
  have "r4 = Set_rejected (Error ''write'') \<and> cell s4 = ?v"
    by blast
  then have g4: "case setStoreValueThenWrite JSON_stringify tokenParent False ?v
                        (write_finds (Rejected (Error ''write''))) ?s of
                   (r, s') \<Rightarrow> r = Set_rejected (Error ''write'') \<and> cell s' = ?v"
    unfolding c4 prod.case .
  obtain r5 s5 where c5: "setStoreValueThenWrite JSON_stringify tokenParent True ?v
                            (write_finds (Fulfilled (Str ''canonical''))) ?s = (r5, s5)"
    by (cases "setStoreValueThenWrite JSON_stringify tokenParent True ?v
                 (write_finds (Fulfilled (Str ''canonical''))) ?s")
  from set_publishes_writes_reconciles
         [where stringify = JSON_stringify and stores = tokenParent and reloadable = True
            and v = ?v and env = "write_finds (Fulfilled (Str ''canonical''))" and s = ?s
            and pv = ?pv and w = "Str ''canonical''" and pv' = ?pv, unfolded c5 prod.case,
          THEN conjunct2, THEN conjunct2, THEN conjunct2, THEN conjunct2, THEN conjunct2, THEN conjunct2,
          THEN conjunct1]
       a [of "Fulfilled (Str ''canonical'')"] ra [of "Fulfilled (Str ''canonical'')"]
       w(1,2) [of "Fulfilled (Str ''canonical'')"]
  have "case reload_settles (write_finds (Fulfilled (Str ''canonical''))) of
          None \<Rightarrow>
            r5 = Set_waiting \<and>
            sets s5 = sets ?s @ [?v] @
              (if Str ''canonical'' \<noteq> Undefined then [Str ''canonical''] else [])
        | Some (Inl e) \<Rightarrow>
            r5 = Set_rejected e \<and>
            sets s5 = sets ?s @ [?v] @
              (if Str ''canonical'' \<noteq> Undefined then [Str ''canonical''] else [])
        | Some (Inr x) \<Rightarrow>
            r5 = Set_resolved \<and> cell s5 = x \<and>
            sets s5 = sets ?s @ [?v] @
              (if Str ''canonical'' \<noteq> Undefined then [Str ''canonical''] else []) @ [x]"
    by blast
  then have g5: "case setStoreValueThenWrite JSON_stringify tokenParent True ?v
                        (write_finds (Fulfilled (Str ''canonical''))) ?s of
                   (r, s') \<Rightarrow>
                     r = Set_resolved \<and> sets s' = [?v, Str ''canonical'', Str ''reloaded'']"
    unfolding c5 prod.case w(3) s0 by simp
  let ?cv = "Arr [Str ''token'', Str ''cached'']"
  have xs: "getStoresArray cachedParents =
              [writableParent (Str ''token''),
               \<lparr>load = None, reload = Some (Foreign 7), setter = None, current = Str ''cached''\<rparr>]"
    by (simp add: cachedParents_def)
  have b: "awaited (load_reports (reload_finds rs)) (loadAll cachedParents) = Fulfilled ?cv" for rs
    by (simp add: reload_finds_def cachedParents_def loadAll_def Promise_all_def
                  aggregate_state_def writableParent_def get_def)
  have rw: "written (reload_finds rs) = Fulfilled (Str ''canonical'')"
    "reload_mres (reload_finds rs) = Returns_promise"
    "reload_settles (reload_finds rs) = Some (Inr (Str ''reloaded''))"
    "reload_reports (reload_finds rs) = rs" for rs
    by (simp_all add: reload_finds_def)
  have rb: "awaited (reload_reports (reload_finds [(1, Inr (Str ''fresh''))]))
              (reloadAll cachedParents) = Fulfilled (Arr [Str ''token'', Str ''fresh''])"
    by (simp add: reload_finds_def cachedParents_def reloadAll_def Promise_all_def
                  aggregate_state_def element_settled_def writableParent_def get_def)
  have c0: "calls ?s = []" by (simp add: init_store_def)
  obtain r6 s6 where c6: "setStoreValueThenWrite JSON_stringify cachedParents True ?v
                            (reload_finds []) ?s = (r6, s6)"
    by (cases "setStoreValueThenWrite JSON_stringify cachedParents True ?v (reload_finds []) ?s")
  from set_publishes_writes_reconciles
         [where stringify = JSON_stringify and stores = cachedParents and reloadable = True
            and v = ?v and env = "reload_finds []" and s = ?s and pv = ?cv
            and w = "Str ''canonical''" and i = 1, unfolded c6 prod.case,
          THEN conjunct2, THEN conjunct2, THEN conjunct2, THEN conjunct2, THEN conjunct2,
          THEN conjunct2, THEN conjunct2, THEN conjunct2, THEN conjunct2, THEN conjunct2,
          THEN conjunct1]
       b [of "[]"] rw(1,4) [of "[]"]
  have "r6 = Set_waiting \<and> calls s6 = calls ?s"
    by (simp add: xs isReloadable_def)
  then have g6: "case setStoreValueThenWrite JSON_stringify cachedParents True ?v
                        (reload_finds []) ?s of
                   (r, s') \<Rightarrow> r = Set_waiting \<and> calls s' = []"
    unfolding c6 prod.case c0 .
  obtain r7 s7 where c7: "setStoreValueThenWrite JSON_stringify cachedParents True ?v
                            (reload_finds [(1, Inl (Error ''reload''))]) ?s = (r7, s7)"
    by (cases "setStoreValueThenWrite JSON_stringify cachedParents True ?v
                 (reload_finds [(1, Inl (Error ''reload''))]) ?s")
  from set_publishes_writes_reconciles
         [where stringify = JSON_stringify and stores = cachedParents and reloadable = True
            and v = ?v and env = "reload_finds [(1, Inl (Error ''reload''))]" and s = ?s
            and pv = ?cv and w = "Str ''canonical''" and i = 1 and pre = "[]" and post = "[]"
            and e = "Error ''reload''", unfolded c7 prod.case,
          THEN conjunct2, THEN conjunct2, THEN conjunct2, THEN conjunct2, THEN conjunct2,
          THEN conjunct2, THEN conjunct2, THEN conjunct2, THEN conjunct2, THEN conjunct2,
          THEN conjunct2]
       b [of "[(1, Inl (Error ''reload''))]"] rw(1,4) [of "[(1, Inl (Error ''reload''))]"]
  have "r7 = Set_rejected (Error ''reload'') \<and> calls s7 = calls ?s"
    by (simp add: xs isReloadable_def)
  then have g7: "case setStoreValueThenWrite JSON_stringify cachedParents True ?v
                        (reload_finds [(1, Inl (Error ''reload''))]) ?s of
                   (r, s') \<Rightarrow> r = Set_rejected (Error ''reload'') \<and> calls s' = []"
    unfolding c7 prod.case c0 .
  obtain r8 s8 where c8: "setStoreValueThenWrite JSON_stringify cachedParents True ?v
                            (reload_finds [(1, Inr (Str ''fresh''))]) ?s = (r8, s8)"
    by (cases "setStoreValueThenWrite JSON_stringify cachedParents True ?v
                 (reload_finds [(1, Inr (Str ''fresh''))]) ?s")
  from set_publishes_writes_reconciles
         [where stringify = JSON_stringify and stores = cachedParents and reloadable = True
            and v = ?v and env = "reload_finds [(1, Inr (Str ''fresh''))]" and s = ?s
            and pv = ?cv and w = "Str ''canonical''"
            and pv' = "Arr [Str ''token'', Str ''fresh'']", unfolded c8 prod.case,
          THEN conjunct2, THEN conjunct2, THEN conjunct2, THEN conjunct2, THEN conjunct2,
          THEN conjunct2, THEN conjunct1]
       b [of "[(1, Inr (Str ''fresh''))]"] rb rw(1,2,3) [of "[(1, Inr (Str ''fresh''))]"]
  have "r8 = Set_resolved \<and>
        sets s8 = sets ?s @ [?v] @
          (if Str ''canonical'' \<noteq> Undefined then [Str ''canonical''] else []) @ [Str ''reloaded'']"
    by simp
  then have g8: "case setStoreValueThenWrite JSON_stringify cachedParents True ?v
                        (reload_finds [(1, Inr (Str ''fresh''))]) ?s of
                   (r, s') \<Rightarrow>
                     r = Set_resolved \<and> sets s' = [?v, Str ''canonical'', Str ''reloaded'']"
    unfolding c8 prod.case s0 by simp
  show ?thesis
    by (rule conjI [OF a conjI [OF g1 conjI [OF g2 conjI [OF g3 conjI [OF g4 conjI [OF g5
          conjI [OF b conjI [OF g6 conjI [OF g7 g8]]]]]]]]])
qed

end
